theory Spec2Isabelle
  imports Complex_Main "HOL-Library.Sublist"
begin

section \<open>Strings\<close>

text \<open>
  Identifiers, error texts and service replies are byte strings. \<open>Contains s sub\<close> is Go's
  \<^verbatim>\<open>strings.Contains(s, sub)\<close> and JavaScript's \<^verbatim>\<open>s.includes(sub)\<close>: \<open>sub\<close> occurs
  in \<open>s\<close> as a contiguous run.
\<close>

fun Contains :: "string \<Rightarrow> string \<Rightarrow> bool" where
  "Contains [] sub = (sub = [])"
| "Contains (c # cs) sub = (prefix sub (c # cs) \<or> Contains cs sub)"

text \<open>
  \<open>TrimSpace\<close> is \<^verbatim>\<open>strings.TrimSpace\<close> and \<^verbatim>\<open>String.prototype.trim\<close> on ASCII text:
  the six ASCII white-space characters (tab, line feed, vertical tab, form feed, carriage
  return, space) are removed from both ends. White space outside ASCII is not modelled.
\<close>

definition isSpace :: "char \<Rightarrow> bool" where
  "isSpace c = (c \<in> set [CHR 0x09, CHR 0x0A, CHR 0x0B, CHR 0x0C, CHR 0x0D, CHR 0x20])"

definition TrimSpace :: "string \<Rightarrow> string" where
  "TrimSpace s = rev (dropWhile isSpace (rev (dropWhile isSpace s)))"

section \<open>The Go program: results and one attempt\<close>

text \<open>The struct \<^verbatim>\<open>Result\<close>. A Go variable declared without a value is \<open>Result_zero\<close>.\<close>

record Result =
  Cedula :: string
  PrimerApellido :: string
  SegundoApellido :: string
  PrimerNombre :: string
  SegundoNombre :: string
  Estado :: string
  Attempts :: int
  Error :: string
  ProcessingTime :: string
  Screenshot :: "char list"

definition Result_zero :: Result where
  "Result_zero = \<lparr>Cedula = [], PrimerApellido = [], SegundoApellido = [], PrimerNombre = [],
     SegundoNombre = [], Estado = [], Attempts = 0, Error = [], ProcessingTime = [],
     Screenshot = []\<rparr>"

text \<open>
  What the browser and the solving service did during one call of \<^verbatim>\<open>processCedula\<close>: one
  constructor for each \<^verbatim>\<open>return\<close> of the function, in the order of the source, carrying
  the text of the error (\<^verbatim>\<open>%v\<close>) or the extracted fields. \<open>Solve_failed\<close> carries the error
  returned by \<^verbatim>\<open>solveCaptcha\<close>.
\<close>

datatype page_run =
  Navigate_failed string
| Screenshot_failed string
| Solve_failed string
| Captcha_input_failed string
| Search_failed string
| Site_message string
| Extract_failed string
| Extracted string string string string string

text \<open>
  \<^verbatim>\<open>processCedula(cedula, ctx, attempt)\<close>; \<open>elapsed\<close> is \<^verbatim>\<open>time.Since(startTime).String()\<close>
  at the return. The fields of \<open>Extracted\<close> are \<^verbatim>\<open>primerApellido\<close>, \<^verbatim>\<open>segundoApellido\<close>,
  \<^verbatim>\<open>primerNombre\<close>, \<^verbatim>\<open>otrosNombres\<close> and \<^verbatim>\<open>estado\<close>.
\<close>

definition failed :: "string \<Rightarrow> int \<Rightarrow> string \<Rightarrow> string \<Rightarrow> Result" where
  "failed cedula attempt elapsed msg =
     Result_zero\<lparr>Cedula := cedula, Attempts := attempt, Error := msg, Estado := ''Error'',
       ProcessingTime := elapsed\<rparr>"

fun processCedula :: "string \<Rightarrow> page_run \<Rightarrow> string \<Rightarrow> int \<Rightarrow> Result" where
  "processCedula cedula (Navigate_failed err) elapsed attempt =
     failed cedula attempt elapsed (''Error al navegar: '' @ err)"
| "processCedula cedula (Screenshot_failed err) elapsed attempt =
     failed cedula attempt elapsed (''Error con captcha: '' @ err)"
| "processCedula cedula (Solve_failed err) elapsed attempt =
     failed cedula attempt elapsed (''Error resolviendo captcha: '' @ err)"
| "processCedula cedula (Captcha_input_failed err) elapsed attempt =
     failed cedula attempt elapsed (''Error con captcha: '' @ err)"
| "processCedula cedula (Search_failed err) elapsed attempt =
     failed cedula attempt elapsed
       (''Error en bot'' @ [CHR 0xC3, CHR 0xB3] @ ''n b'' @ [CHR 0xC3, CHR 0xBA] @ ''squeda: '' @ err)"
| "processCedula cedula (Site_message errorMessage) elapsed attempt =
     failed cedula attempt elapsed errorMessage"
| "processCedula cedula (Extract_failed err) elapsed attempt =
     failed cedula attempt elapsed (''Error extrayendo datos: '' @ err)"
| "processCedula cedula (Extracted pa sa pn otros estado) elapsed attempt =
     Result_zero\<lparr>Cedula := cedula, Attempts := attempt, PrimerApellido := pa,
       SegundoApellido := sa, PrimerNombre := pn, SegundoNombre := otros, Estado := estado,
       ProcessingTime := elapsed\<rparr>"

section \<open>The Go program: the retry loop of a worker\<close>

text \<open>
  The loop \<^verbatim>\<open>for attempt := 1; attempt <= MaxRetries; attempt++\<close> of \<^verbatim>\<open>worker\<close>. \<open>run a\<close> and
  \<open>elapsed a\<close> say what attempt \<open>a\<close> meets. The loop returns the Result that is sent on the
  channel, the attempts for which \<^verbatim>\<open>processCedula\<close> was called, in order, and how many
  times it slept for \<^verbatim>\<open>RetryDelay\<close>.
\<close>

record retried =
  final :: Result
  calls :: "int list"
  sleeps :: nat

definition after_sleep :: "int \<Rightarrow> retried \<Rightarrow> retried" where
  "after_sleep attempt out = out\<lparr>calls := attempt # calls out, sleeps := Suc (sleeps out)\<rparr>"

function retry_loop ::
  "int \<Rightarrow> (int \<Rightarrow> page_run) \<Rightarrow> (int \<Rightarrow> string) \<Rightarrow> string \<Rightarrow> int \<Rightarrow> Result \<Rightarrow> retried" where
  "retry_loop MaxRetries run elapsed cedula attempt result =
     (if attempt \<le> MaxRetries then
        (if Error (processCedula cedula (run attempt) (elapsed attempt) attempt) = [] \<or>
            \<not> Contains (Error (processCedula cedula (run attempt) (elapsed attempt) attempt)) ''captcha''
         then \<lparr>final = processCedula cedula (run attempt) (elapsed attempt) attempt,
                calls = [attempt], sleeps = 0\<rparr>
         else after_sleep attempt
                (retry_loop MaxRetries run elapsed cedula (attempt + 1)
                   (processCedula cedula (run attempt) (elapsed attempt) attempt)))
      else \<lparr>final = result, calls = [], sleeps = 0\<rparr>)"
  by pat_completeness auto
termination
  by (relation "measure (\<lambda>(m, r, e, c, a, res). nat (m + 1 - a))") auto

declare retry_loop.simps [simp del]

text \<open>
  The test that decides a retry is
  \<^verbatim>\<open>result.Error == "" || !strings.Contains(result.Error, "captcha")\<close>: the loop goes on
  exactly when the Result is a failure whose text mentions the captcha.
\<close>

definition captcha_failed :: "Result \<Rightarrow> bool" where
  "captcha_failed r = (Error r \<noteq> [] \<and> Contains (Error r) ''captcha'')"

section \<open>The Go program: configuration, workers and the collector\<close>

record TimeoutConfig =
  Initial :: int
  DataExtraction :: int
  Captcha :: int
  RetryDelay :: int
  MaxRetries :: int

record Config =
  APIKey :: string
  Concurrency :: int
  BatchSize :: int
  MaxParallelBrowsers :: int
  UseGPU :: bool
  timeoutConfig :: TimeoutConfig
  ProxyList :: "string list"

text \<open>\<^verbatim>\<open>getDefaultConfig\<close>; durations are nanoseconds, \<open>numCPU\<close> is \<^verbatim>\<open>runtime.NumCPU()\<close>.\<close>

definition Second :: int where
  "Second = 1000000000"

definition getDefaultConfig :: "string \<Rightarrow> nat \<Rightarrow> Config" where
  "getDefaultConfig key numCPU =
     \<lparr>APIKey = key, Concurrency = int numCPU * 2, BatchSize = 100,
      MaxParallelBrowsers = int numCPU, UseGPU = True,
      timeoutConfig = \<lparr>Initial = 60 * Second, DataExtraction = 30 * Second,
        Captcha = 60 * Second, RetryDelay = 5 * Second, MaxRetries = 3\<rparr>,
      ProxyList = []\<rparr>"

text \<open>
  What a run meets outside the program. \<open>NumCPU\<close> is \<^verbatim>\<open>runtime.NumCPU()\<close>, which is at
  least 1. For worker \<open>w\<close>: \<open>browser_err w\<close> is the error of starting its browser
  (\<open>None\<close> for \<^verbatim>\<open>nil\<close>); for the identifier at position \<open>j\<close> of its shard,
  \<open>acquire_err w j\<close> is the error of \<^verbatim>\<open>sem.Acquire\<close>, and \<open>page w j a\<close> and
  \<open>clock w j a\<close> are what attempt \<open>a\<close> meets. Every external call is taken to return.
\<close>

record world =
  NumCPU :: nat
  browser_err :: "nat \<Rightarrow> string option"
  acquire_err :: "nat \<Rightarrow> nat \<Rightarrow> string option"
  page :: "nat \<Rightarrow> nat \<Rightarrow> int \<Rightarrow> page_run"
  clock :: "nat \<Rightarrow> nat \<Rightarrow> int \<Rightarrow> string"

text \<open>
  A worker: \<open>sent\<close> lists the Results it puts on the channel, in order, and \<open>attempted\<close>
  the calls of \<^verbatim>\<open>processCedula\<close> it made (identifier and attempt).
\<close>

record worked =
  sent :: "Result list"
  attempted :: "(string \<times> int) list"

definition startup_failed :: "string \<Rightarrow> string \<Rightarrow> Result" where
  "startup_failed cedula err =
     Result_zero\<lparr>Cedula := cedula, Estado := ''Error'',
       Error := ''Error iniciando navegador: '' @ err, Attempts := 1\<rparr>"

text \<open>The second loop of \<^verbatim>\<open>worker\<close>, from position \<open>j\<close> of the shard on.\<close>

fun work :: "Config \<Rightarrow> world \<Rightarrow> nat \<Rightarrow> nat \<Rightarrow> string list \<Rightarrow> worked" where
  "work cfg e w j [] = \<lparr>sent = [], attempted = []\<rparr>"
| "work cfg e w j (cedula # rest) =
     (case acquire_err e w j of
        Some err \<Rightarrow> work cfg e w (Suc j) rest
      | None \<Rightarrow>
          \<lparr>sent =
             final (retry_loop (MaxRetries (timeoutConfig cfg)) (page e w j) (clock e w j)
               cedula 1 Result_zero) # sent (work cfg e w (Suc j) rest),
           attempted =
             map (Pair cedula)
               (calls (retry_loop (MaxRetries (timeoutConfig cfg)) (page e w j) (clock e w j)
                  cedula 1 Result_zero)) @ attempted (work cfg e w (Suc j) rest)\<rparr>)"

definition worker :: "Config \<Rightarrow> world \<Rightarrow> string list \<Rightarrow> nat \<Rightarrow> worked" where
  "worker cfg e cedulas browserIdx =
     (case browser_err e browserIdx of
        Some err \<Rightarrow> \<lparr>sent = map (\<lambda>cedula. startup_failed cedula err) cedulas, attempted = []\<rparr>
      | None \<Rightarrow> work cfg e browserIdx 0 cedulas)"

text \<open>\<^verbatim>\<open>ProcessCedulas\<close>: the index map, the number of browsers, the shards.\<close>

fun indices :: "string list \<Rightarrow> nat \<Rightarrow> (string \<rightharpoonup> nat) \<Rightarrow> (string \<rightharpoonup> nat)" where
  "indices [] i m = m"
| "indices (cedula # rest) i m = indices rest (Suc i) (m(cedula \<mapsto> i))"

definition cedulaIndices :: "string list \<Rightarrow> (string \<rightharpoonup> nat)" where
  "cedulaIndices cedulas = indices cedulas 0 Map.empty"

definition optimalBrowsers :: "Config \<Rightarrow> world \<Rightarrow> nat" where
  "optimalBrowsers cfg e =
     (if MaxParallelBrowsers cfg > 0 \<and> MaxParallelBrowsers cfg < int (NumCPU e)
      then nat (MaxParallelBrowsers cfg) else NumCPU e)"

definition cedulasPerBrowser :: "Config \<Rightarrow> world \<Rightarrow> string list \<Rightarrow> nat" where
  "cedulasPerBrowser cfg e cedulas =
     (length cedulas + optimalBrowsers cfg e - 1) div optimalBrowsers cfg e"

definition slice :: "'a list \<Rightarrow> nat \<Rightarrow> nat \<Rightarrow> 'a list" where
  "slice xs startIdx endIdx = take (endIdx - startIdx) (drop startIdx xs)"

function shards :: "nat \<Rightarrow> nat \<Rightarrow> nat \<Rightarrow> string list \<Rightarrow> string list list" where
  "shards optimal per i cedulas =
     (if i < optimal \<and> i * per < length cedulas
      then slice cedulas (i * per) (min ((i + 1) * per) (length cedulas))
             # shards optimal per (Suc i) cedulas
      else [])"
  by pat_completeness auto
termination
  by (relation "measure (\<lambda>(optimal, per, i, cedulas). optimal - i)") auto

declare shards.simps [simp del]

text \<open>
  The collector goroutine: each Result received is stored at the index the map gives for
  its identifier, and dropped when the map has none.
\<close>

definition store :: "(string \<rightharpoonup> nat) \<Rightarrow> Result list \<Rightarrow> Result \<Rightarrow> Result list" where
  "store idx results result =
     (case idx (Cedula result) of Some i \<Rightarrow> results[i := result] | None \<Rightarrow> results)"

definition collector :: "(string \<rightharpoonup> nat) \<Rightarrow> Result list \<Rightarrow> Result list \<Rightarrow> Result list" where
  "collector idx results received = foldl (store idx) results received"

text \<open>
  The workers run concurrently, so the channel delivers their Results in some interleaving
  that keeps each worker's own order. \<open>arrival order outs\<close> is the interleaving in which
  the next Result comes from worker \<open>w\<close> for each \<open>w\<close> of \<open>order\<close> in turn (a worker with
  nothing left is passed over), and what is left after that is delivered worker by worker.
  Every interleaving is \<open>arrival order outs\<close> for some \<open>order\<close>.
\<close>

fun arrival :: "nat list \<Rightarrow> 'a list list \<Rightarrow> 'a list" where
  "arrival [] outs = concat outs"
| "arrival (w # order) outs =
     (if w < length outs then
        (case outs ! w of
           [] \<Rightarrow> arrival order outs
         | r # rest \<Rightarrow> r # arrival order (outs[w := rest]))
      else arrival order outs)"

definition spawned :: "Config \<Rightarrow> world \<Rightarrow> string list \<Rightarrow> worked list" where
  "spawned cfg e cedulas =
     map (\<lambda>(i, shard). worker cfg e shard i)
       (enumerate 0 (shards (optimalBrowsers cfg e) (cedulasPerBrowser cfg e cedulas) 0 cedulas))"

text \<open>
  \<open>delivered\<close> lists the Results that the workers send, in the order in which the channel
  delivers them to the collector.
\<close>

definition delivered :: "Config \<Rightarrow> world \<Rightarrow> nat list \<Rightarrow> string list \<Rightarrow> Result list" where
  "delivered cfg e order cedulas = arrival order (map sent (spawned cfg e cedulas))"

text \<open>
  \<^verbatim>\<open>ProcessCedulas\<close> waits for the workers (\<^verbatim>\<open>s.wg.Wait()\<close>), closes the channel and
  returns the slice. It does not wait for the collector goroutine: every Result has been
  sent by then, but those still in the buffer of the channel (\<^verbatim>\<open>Concurrency*2\<close> places)
  or in the hands of the collector are not in the slice yet. \<open>stored\<close> is the number of
  Results that the collector had stored when the function returned, so the slice returned
  is the state of the collector after the first \<open>stored\<close> Results of \<open>delivered\<close>. Any
  number is admitted for \<open>stored\<close>; the collector has stored every Result that was sent
  when \<open>stored\<close> is at least the length of \<open>delivered\<close>.
\<close>

definition ProcessCedulas ::
  "Config \<Rightarrow> world \<Rightarrow> nat list \<Rightarrow> nat \<Rightarrow> string list \<Rightarrow> Result list" where
  "ProcessCedulas cfg e order stored cedulas =
     collector (cedulaIndices cedulas) (replicate (length cedulas) Result_zero)
       (take stored (delivered cfg e order cedulas))"

section \<open>The Go program: the solving service and the input file\<close>

record CaptchaResponse =
  Status :: int
  Request :: string

text \<open>
  One HTTP exchange with the service as \<^verbatim>\<open>solveCaptcha\<close> sees it: the request fails, the
  body cannot be read, the body is not the expected JSON, or a \<^verbatim>\<open>CaptchaResponse\<close> arrives.
\<close>

datatype exchange =
  Http_failed string
| Body_failed string
| Json_failed string
| Json CaptchaResponse

text \<open>
  A solver's end: what it returns and how many times it asked the service for the result.
  For Go the outcome is \<open>Inl\<close> the error text or \<open>Inr\<close> the solved text.
\<close>

record 'r polled =
  outcome :: 'r
  polls :: nat

text \<open>
  The loop \<^verbatim>\<open>for i := 0; i < 30; i++\<close> of \<^verbatim>\<open>solveCaptcha\<close>; \<open>get i\<close> is the exchange of
  iteration \<open>i\<close>. Each iteration first sleeps for \<^verbatim>\<open>captchaRetryDelay\<close>.
\<close>

function poll_go :: "(nat \<Rightarrow> exchange) \<Rightarrow> nat \<Rightarrow> (string + string) polled" where
  "poll_go get i =
     (if i < 30 then
        (case get i of
           Json resultResp \<Rightarrow>
             (if Status resultResp = 1
              then \<lparr>outcome = Inr (Request resultResp), polls = Suc i\<rparr>
              else if Request resultResp \<noteq> ''CAPCHA_NOT_READY''
              then \<lparr>outcome = Inl (''error resolviendo captcha: '' @ Request resultResp),
                     polls = Suc i\<rparr>
              else poll_go get (Suc i))
         | Http_failed err \<Rightarrow> poll_go get (Suc i)
         | Body_failed err \<Rightarrow> poll_go get (Suc i)
         | Json_failed err \<Rightarrow> poll_go get (Suc i))
      else \<lparr>outcome = Inl (''timeout esperando resoluci'' @ [CHR 0xC3, CHR 0xB3] @ ''n del captcha''),
             polls = i\<rparr>)"
  by pat_completeness auto
termination
  by (relation "measure (\<lambda>(get, i). 30 - i)") auto

declare poll_go.simps [simp del]

definition solveCaptcha :: "exchange \<Rightarrow> (nat \<Rightarrow> exchange) \<Rightarrow> (string + string) polled" where
  "solveCaptcha submit get =
     (case submit of
        Http_failed err \<Rightarrow>
          \<lparr>outcome = Inl (''error enviando captcha a 2captcha: '' @ err), polls = 0\<rparr>
      | Body_failed err \<Rightarrow>
          \<lparr>outcome = Inl (''error leyendo respuesta de 2captcha: '' @ err), polls = 0\<rparr>
      | Json_failed err \<Rightarrow>
          \<lparr>outcome = Inl (''error parseando respuesta de 2captcha: '' @ err), polls = 0\<rparr>
      | Json captchaResp \<Rightarrow>
          (if Status captchaResp \<noteq> 1
           then \<lparr>outcome = Inl (''error en respuesta de 2captcha: '' @ Request captchaResp),
                  polls = 0\<rparr>
           else poll_go get 0))"

text \<open>
  \<^verbatim>\<open>readCedulasFromExcel\<close> of the Go program. \<open>workbook\<close> is what \<^verbatim>\<open>excelize\<close> gives:
  the file does not open, the rows cannot be read, or the rows of the first sheet.
\<close>

datatype workbook =
  Open_failed string
| Rows_failed string
| Rows "string list list"

fun scan_rows :: "nat \<Rightarrow> string list list \<Rightarrow> string list" where
  "scan_rows i [] = []"
| "scan_rows i (row # rows) =
     (if i = 0 then scan_rows (Suc i) rows
      else (case row of
              [] \<Rightarrow> scan_rows (Suc i) rows
            | first # others \<Rightarrow>
                (if TrimSpace first \<noteq> [] then TrimSpace first # scan_rows (Suc i) rows
                 else scan_rows (Suc i) rows)))"

definition readCedulasFromExcel :: "workbook \<Rightarrow> string + string list" where
  "readCedulasFromExcel f =
     (case f of
        Open_failed err \<Rightarrow> Inl (''error abriendo archivo Excel: '' @ err)
      | Rows_failed err \<Rightarrow> Inl (''error leyendo filas: '' @ err)
      | Rows rows \<Rightarrow> Inr (scan_rows 0 rows))"

section \<open>The JavaScript programs: values and records\<close>

text \<open>
  A JavaScript number is \<open>NaN\<close>, an infinity or a finite value; only its comparison with
  0 matters here. A cell of the sheet is missing, a text or a whole number.
\<close>

datatype js_number = NaN | Finite real | PosInfinity | NegInfinity

fun le_zero :: "js_number \<Rightarrow> bool" where
  "le_zero NaN = False"
| "le_zero (Finite x) = (x \<le> 0)"
| "le_zero PosInfinity = False"
| "le_zero NegInfinity = True"

datatype js_value = Undefined | Null | Str string | Number js_number

datatype cell = Missing | Text string | Whole int

text \<open>The object both JavaScript programs build for an identifier.\<close>

record consulta =
  cedula :: string
  primerApellido :: string
  segundoApellido :: string
  primerNombre :: string
  segundoNombre :: string
  estado :: string

definition ERROR :: "string \<Rightarrow> string \<Rightarrow> consulta" where
  "ERROR c e = \<lparr>cedula = c, primerApellido = ''ERROR'', segundoApellido = ''ERROR'',
     primerNombre = ''ERROR'', segundoNombre = ''ERROR'', estado = e\<rparr>"

text \<open>One request to the service as the JavaScript solvers see it: \<^verbatim>\<open>axios\<close> throws, or
  the reply's \<^verbatim>\<open>data\<close> has a \<^verbatim>\<open>status\<close> and a \<^verbatim>\<open>request\<close>.\<close>

datatype reply = Axios_failed string | Reply int string

text \<open>
  What the JavaScript solvers return: the token, or \<open>None\<close> for \<^verbatim>\<open>null\<close>. After the loop
  \<^verbatim>\<open>if (!token) throw\<close> sends an empty token to the outer \<^verbatim>\<open>catch\<close>, which returns
  \<^verbatim>\<open>null\<close>.
\<close>

definition token_or_null :: "string option \<Rightarrow> string option" where
  "token_or_null token = (case token of None \<Rightarrow> None | Some t \<Rightarrow> (if t = [] then None else Some t))"

section \<open>src/main.js: the solver\<close>

text \<open>
  The loop \<^verbatim>\<open>while (attempts < maxAttempts)\<close> with \<^verbatim>\<open>maxAttempts = 30\<close>; \<open>get k\<close> is the
  reply to the \<open>k\<close>-th request for the result. The \<^verbatim>\<open>throw\<close> for a reply that is not
  \<^verbatim>\<open>CAPCHA_NOT_READY\<close> stands inside the \<^verbatim>\<open>try\<close> whose \<^verbatim>\<open>catch\<close> only logs, so the loop
  goes on after it.
\<close>

function poll_main :: "(nat \<Rightarrow> reply) \<Rightarrow> nat \<Rightarrow> string option polled" where
  "poll_main get attempts =
     (if attempts < 30 then
        (case get (Suc attempts) of
           Reply status request \<Rightarrow>
             (if status = 1 then \<lparr>outcome = Some request, polls = Suc attempts\<rparr>
              else if request \<noteq> ''CAPCHA_NOT_READY'' then poll_main get (Suc attempts)
              else poll_main get (Suc attempts))
         | Axios_failed err \<Rightarrow> poll_main get (Suc attempts))
      else \<lparr>outcome = None, polls = attempts\<rparr>)"
  by pat_completeness auto
termination
  by (relation "measure (\<lambda>(get, attempts). 30 - attempts)") auto

declare poll_main.simps [simp del]

definition solveTurnstileWith2Captcha_main :: "reply \<Rightarrow> (nat \<Rightarrow> reply) \<Rightarrow> string option polled" where
  "solveTurnstileWith2Captcha_main submit get =
     (case submit of
        Axios_failed err \<Rightarrow> \<lparr>outcome = None, polls = 0\<rparr>
      | Reply status request \<Rightarrow>
          (if status \<noteq> 1 then \<lparr>outcome = None, polls = 0\<rparr>
           else (poll_main get 0)\<lparr>outcome := token_or_null (outcome (poll_main get 0))\<rparr>))"

section \<open>src/js/main.js: the solver and the reader\<close>

text \<open>
  The loop with \<^verbatim>\<open>maxAttempts = 20\<close>. The delay before each request (1000 ms, then
  2000 ms) changes only the timing and is left out.
\<close>

function poll_js :: "(nat \<Rightarrow> reply) \<Rightarrow> nat \<Rightarrow> string option polled" where
  "poll_js get attempts =
     (if attempts < 20 then
        (case get (Suc attempts) of
           Reply status request \<Rightarrow>
             (if status = 1 then \<lparr>outcome = Some request, polls = Suc attempts\<rparr>
              else if request = ''CAPCHA_NOT_READY'' then poll_js get (Suc attempts)
              else if Contains request ''ERROR_CAPTCHA_UNSOLVABLE''
              then \<lparr>outcome = None, polls = Suc attempts\<rparr>
              else poll_js get (Suc attempts))
         | Axios_failed err \<Rightarrow> poll_js get (Suc attempts))
      else \<lparr>outcome = None, polls = attempts\<rparr>)"
  by pat_completeness auto
termination
  by (relation "measure (\<lambda>(get, attempts). 20 - attempts)") auto

declare poll_js.simps [simp del]

definition solveTurnstileWith2Captcha_js :: "reply \<Rightarrow> (nat \<Rightarrow> reply) \<Rightarrow> string option polled" where
  "solveTurnstileWith2Captcha_js submit get =
     (case submit of
        Axios_failed err \<Rightarrow> \<lparr>outcome = None, polls = 0\<rparr>
      | Reply status request \<Rightarrow>
          (if status \<noteq> 1 then \<lparr>outcome = None, polls = 0\<rparr>
           else (poll_js get 0)\<lparr>outcome := token_or_null (outcome (poll_js get 0))\<rparr>))"

text \<open>
  \<^verbatim>\<open>readCedulasFromExcel\<close> of src/js/main.js:
  \<^verbatim>\<open>rows.map((row) => String(row[0] || "").trim()).filter(Boolean)\<close>, on the rows that
  \<^verbatim>\<open>sheet_to_json(sheet, { header: 1 })\<close> gives (every row of the sheet, as an array).
\<close>

definition digit :: "nat \<Rightarrow> char" where
  "digit d = ''0123456789'' ! d"

function decimal :: "nat \<Rightarrow> string" where
  "decimal n = (if n < 10 then [digit n] else decimal (n div 10) @ [digit (n mod 10)])"
  by pat_completeness auto
termination
  by (relation "measure (\<lambda>n. n)") auto

declare decimal.simps [simp del]

fun first_or_empty :: "cell list \<Rightarrow> string" where
  "first_or_empty [] = []"
| "first_or_empty (Missing # others) = []"
| "first_or_empty (Text s # others) = s"
| "first_or_empty (Whole n # others) =
     (if n = 0 then [] else if n < 0 then CHR ''-'' # decimal (nat (- n)) else decimal (nat n))"

definition readCedulasFromExcel_js :: "cell list list \<Rightarrow> string list" where
  "readCedulasFromExcel_js rows =
     filter (\<lambda>s. s \<noteq> []) (map (\<lambda>row. TrimSpace (first_or_empty row)) rows)"

section \<open>src/js/main.js: tasks, the pool and the run\<close>

text \<open>
  What one call of \<^verbatim>\<open>processCedula\<close> meets. \<open>Page_failed\<close>: \<^verbatim>\<open>browser.newPage\<close>,
  \<^verbatim>\<open>optimizeRequestInterception\<close> or \<^verbatim>\<open>page.close\<close> throws, outside the \<^verbatim>\<open>try\<close> or in
  its \<^verbatim>\<open>finally\<close>, so the promise of the task rejects (\<open>Inl\<close>). The other constructors
  are the records the function returns, in the order of the source; \<open>Threw\<close> is the
  \<^verbatim>\<open>catch\<close>.
\<close>

datatype task_run =
  Page_failed string
| Captcha_unsolved
| No_results
| No_data
| Threw string
| Data string string string string string

fun processCedula_js :: "string \<Rightarrow> task_run \<Rightarrow> string + consulta" where
  "processCedula_js c (Page_failed err) = Inl err"
| "processCedula_js c Captcha_unsolved = Inr (ERROR c ''Error: Captcha unsolved'')"
| "processCedula_js c No_results = Inr (ERROR c ''Error: Could not find results on page'')"
| "processCedula_js c No_data = Inr (ERROR c ''Error: No data found'')"
| "processCedula_js c (Threw msg) = Inr (ERROR c (''Error: '' @ msg))"
| "processCedula_js c (Data pa sa pn sn es) =
     Inr \<lparr>cedula = c, primerApellido = pa, segundoApellido = sa, primerNombre = pn,
       segundoNombre = sn, estado = es\<rparr>"

text \<open>
  \<^verbatim>\<open>limitConcurrency\<close>. A promise is pending or keeps its first settlement. The pool
  holds the variables of the closure (\<^verbatim>\<open>results\<close>, an array that may have holes,
  \<^verbatim>\<open>running\<close>, \<^verbatim>\<open>taskIndex\<close>), the promise it returned, and the tasks that were started
  and have not settled yet.
\<close>

datatype 'a promise = Pending | Resolved 'a | Rejected string

definition settle :: "'a promise \<Rightarrow> 'a promise \<Rightarrow> 'a promise" where
  "settle now new = (case now of Pending \<Rightarrow> new | Resolved v \<Rightarrow> now | Rejected err \<Rightarrow> now)"

record pool =
  results :: "consulta option list"
  running :: nat
  taskIndex :: nat
  inflight :: "nat list"
  settled :: "consulta option list promise"

text \<open>\<^verbatim>\<open>results[i] = v\<close> on a JavaScript array: an index past the end extends it.\<close>

definition assign :: "'a option list \<Rightarrow> nat \<Rightarrow> 'a \<Rightarrow> 'a option list" where
  "assign xs i v =
     (if i < length xs then xs[i := Some v]
      else xs @ replicate (i - length xs) None @ [Some v])"

text \<open>The \<^verbatim>\<open>while\<close> loop of \<^verbatim>\<open>runTask\<close>, for \<open>n\<close> tasks.\<close>

function start_tasks :: "int \<Rightarrow> nat \<Rightarrow> pool \<Rightarrow> pool" where
  "start_tasks limit n p =
     (if int (running p) < limit \<and> taskIndex p < n
      then start_tasks limit n
             (p\<lparr>running := Suc (running p), inflight := inflight p @ [taskIndex p],
                taskIndex := Suc (taskIndex p)\<rparr>)
      else p)"
  by pat_completeness auto
termination
  by (relation "measure (\<lambda>(limit, n, p). n - taskIndex p)") auto

declare start_tasks.simps [simp del]

definition runTask :: "int \<Rightarrow> nat \<Rightarrow> pool \<Rightarrow> pool" where
  "runTask limit n p =
     (if n \<le> taskIndex p \<and> running p = 0
      then p\<lparr>settled := settle (settled p) (Resolved (results p))\<rparr>
      else start_tasks limit n p)"

text \<open>
  The promise of task \<open>i\<close> settles: \<open>tasks ! i\<close> is what it settles with (\<open>Inl\<close> a
  rejection). Only a task in flight can settle.
\<close>

definition task_settles :: "int \<Rightarrow> (string + consulta) list \<Rightarrow> pool \<Rightarrow> nat \<Rightarrow> pool" where
  "task_settles limit tasks p i =
     (if i \<in> set (inflight p) then
        (case tasks ! i of
           Inr result \<Rightarrow>
             runTask limit (length tasks)
               (p\<lparr>inflight := removeAll i (inflight p), results := assign (results p) i result,
                  running := running p - 1\<rparr>)
         | Inl err \<Rightarrow>
             p\<lparr>inflight := removeAll i (inflight p), settled := settle (settled p) (Rejected err)\<rparr>)
      else p)"

text \<open>
  The pool after the tasks of \<open>events\<close> have settled, in that order, since
  \<^verbatim>\<open>limitConcurrency(tasks, limit)\<close> was called.
\<close>

definition limitConcurrency :: "(string + consulta) list \<Rightarrow> int \<Rightarrow> nat list \<Rightarrow> pool" where
  "limitConcurrency tasks limit events =
     foldl (task_settles limit tasks)
       (runTask limit (length tasks)
          \<lparr>results = [], running = 0, taskIndex = 0, inflight = [], settled = Pending\<rparr>)
       events"

text \<open>
  What a run of \<^verbatim>\<open>scrapeDianCedulas\<close> meets: what \<^verbatim>\<open>checkBalance\<close> returned (\<open>None\<close> for
  \<^verbatim>\<open>null\<close>), the errors of launching the browser, of writing the files and of closing the
  browser, what the task of the identifier at each index meets, and the tasks that settle
  before the timer of \<^verbatim>\<open>globalTimeout\<close> fires, in the order in which they settle.
\<close>

record js_world =
  balance :: "js_number option"
  launch_err :: "string option"
  visit :: "nat \<Rightarrow> task_run"
  before_deadline :: "nat list"
  write_err :: "string option"
  close_err :: "string option"

text \<open>
  How a run ends for its caller, whether it launched a browser, and the identifiers for
  which page work was started.
\<close>

datatype 'a ended = Returned 'a | Returned_undefined | Thrown string

record 'a scraped =
  ended :: "'a ended"
  launched :: bool
  processed :: "string list"

definition no_run :: "'a scraped" where
  "no_run = \<lparr>ended = Returned_undefined, launched = False, processed = []\<rparr>"

definition tasks_js :: "js_world \<Rightarrow> string list \<Rightarrow> (string + consulta) list" where
  "tasks_js e cedulas = map (\<lambda>(i, c). processCedula_js c (visit e i)) (enumerate 0 cedulas)"

text \<open>
  \<^verbatim>\<open>Promise.race\<close> of the pool's promise and the timer: the timer rejects when the pool's
  promise is still pending after the tasks of \<open>before_deadline\<close> have settled.
\<close>

definition race :: "'a promise \<Rightarrow> 'a promise" where
  "race p = settle p (Rejected ''Global timeout reached'')"

definition scrapeDianCedulas_js ::
  "js_world \<Rightarrow> string list \<Rightarrow> string \<Rightarrow> int \<Rightarrow> consulta option list scraped" where
  "scrapeDianCedulas_js e cedulas apiKey concurrencyLimit =
     (if apiKey = [] then no_run
      else if balance e = None \<or> (case balance e of None \<Rightarrow> False | Some b \<Rightarrow> le_zero b) then no_run
      else (case launch_err e of
              Some err \<Rightarrow> \<lparr>ended = Thrown err, launched = False, processed = []\<rparr>
            | None \<Rightarrow>
                \<lparr>ended =
                   (case close_err e of
                      Some err \<Rightarrow> Thrown err
                    | None \<Rightarrow>
                        (case race (settled (limitConcurrency (tasks_js e cedulas) concurrencyLimit
                                      (before_deadline e))) of
                           Resolved resultados \<Rightarrow>
                             (case write_err e of
                                None \<Rightarrow> Returned resultados
                              | Some err \<Rightarrow> Returned_undefined)
                         | Rejected err \<Rightarrow> Returned_undefined
                         | Pending \<Rightarrow> Returned_undefined)),
                 launched = True,
                 processed =
                   take (taskIndex (limitConcurrency (tasks_js e cedulas) concurrencyLimit
                     (before_deadline e))) cedulas\<rparr>))"

section \<open>src/main.js: the run\<close>

text \<open>
  What one iteration of the loop over the identifiers meets, and the records it pushes.
  \<open>Visit_threw\<close> is the outer \<^verbatim>\<open>catch\<close> of the iteration, \<open>Unsolved\<close> the branch where the
  solver returned \<^verbatim>\<open>null\<close> (\<^verbatim>\<open>continue\<close>, nothing is pushed), \<open>Navigation_threw\<close> the
  inner \<^verbatim>\<open>catch\<close>, \<open>Not_found\<close> the branch where no result selector appeared,
  \<open>Data_error\<close> a \<^verbatim>\<open>data.error\<close>, \<open>Found\<close> the extracted fields.
\<close>

datatype visit_run =
  Visit_threw string
| Unsolved
| Navigation_threw string
| Not_found
| Data_error string
| Found string string string string string

fun pushed :: "string \<Rightarrow> visit_run \<Rightarrow> consulta list" where
  "pushed c (Visit_threw msg) = [ERROR c (''Error: '' @ msg)]"
| "pushed c Unsolved = []"
| "pushed c (Navigation_threw msg) = [ERROR c (''Error: Navigation failed - '' @ msg)]"
| "pushed c Not_found = [ERROR c ''Error: Could not find results on page'']"
| "pushed c (Data_error err) = [ERROR c (''Error: '' @ err)]"
| "pushed c (Found pa sa pn sn es) =
     [\<lparr>cedula = c, primerApellido = pa, segundoApellido = sa, primerNombre = pn,
        segundoNombre = sn, estado = es\<rparr>]"

text \<open>
  What a run of \<^verbatim>\<open>scrapeDianCedulas\<close> of src/main.js meets: the \<^verbatim>\<open>request\<close> field that
  \<^verbatim>\<open>checkBalance\<close> returned (\<open>Null\<close> when it failed), the errors of creating the
  screenshots directory, of launching the browser, of preparing the page and of the
  \<^verbatim>\<open>finally\<close> block, and what the iteration for each index meets.
\<close>

record main_world =
  balance_request :: js_value
  mkdir_err :: "string option"
  launch_err_main :: "string option"
  page_err :: "string option"
  visit_main :: "nat \<Rightarrow> visit_run"
  finally_err :: "string option"

definition scrapeDianCedulas_main ::
  "main_world \<Rightarrow> string list \<Rightarrow> string \<Rightarrow> bool \<Rightarrow> consulta list scraped" where
  "scrapeDianCedulas_main e cedulas apiKey takeScreenshots =
     (if apiKey = [] \<or> apiKey = ''YOUR_2CAPTCHA_API_KEY'' then no_run
      else if balance_request e = Str ''0'' then no_run
      else if takeScreenshots \<and> mkdir_err e \<noteq> None
      then \<lparr>ended = Thrown (the (mkdir_err e)), launched = False, processed = []\<rparr>
      else (case launch_err_main e of
              Some err \<Rightarrow> \<lparr>ended = Thrown err, launched = False, processed = []\<rparr>
            | None \<Rightarrow>
                (case page_err e of
                   Some err \<Rightarrow> \<lparr>ended = Thrown err, launched = True, processed = []\<rparr>
                 | None \<Rightarrow>
                     \<lparr>ended =
                        (case finally_err e of
                           Some err \<Rightarrow> Thrown err
                         | None \<Rightarrow>
                             Returned (concat (map (\<lambda>(i, c). pushed c (visit_main e i))
                               (enumerate 0 cedulas)))),
                      launched = True, processed = cedulas\<rparr>)))"
section \<open>Replies that keep a solver waiting\<close>

text \<open>
  \<open>not_ready_go\<close> and \<open>not_ready\<close>: the request for the result fails, or the reply is not a
  success and says \<^verbatim>\<open>CAPCHA_NOT_READY\<close>. \<open>polls_on\<close>: the replies after which the loop of
  src/js/main.js asks again (every reply that is neither a success nor a report of
  \<^verbatim>\<open>ERROR_CAPTCHA_UNSOLVABLE\<close>). \<open>timeout_go\<close> is the error text of \<^verbatim>\<open>solveCaptcha\<close> after its
  loop.
\<close>

definition not_ready_go :: "exchange \<Rightarrow> bool" where
  "not_ready_go x =
     (case x of
        Json r \<Rightarrow> Status r \<noteq> 1 \<and> Request r = ''CAPCHA_NOT_READY''
      | Http_failed err \<Rightarrow> True
      | Body_failed err \<Rightarrow> True
      | Json_failed err \<Rightarrow> True)"

definition not_ready :: "reply \<Rightarrow> bool" where
  "not_ready r =
     (case r of
        Reply status request \<Rightarrow> status \<noteq> 1 \<and> request = ''CAPCHA_NOT_READY''
      | Axios_failed err \<Rightarrow> True)"

definition polls_on :: "reply \<Rightarrow> bool" where
  "polls_on r =
     (case r of
        Reply status request \<Rightarrow>
          status \<noteq> 1 \<and> (request = ''CAPCHA_NOT_READY'' \<or> \<not> Contains request ''ERROR_CAPTCHA_UNSOLVABLE'')
      | Axios_failed err \<Rightarrow> True)"

definition timeout_go :: string where
  "timeout_go = ''timeout esperando resoluci'' @ [CHR 0xC3, CHR 0xB3] @ ''n del captcha''"

section \<open>What a worker sends for an identifier\<close>


section \<open>The states of the pool\<close>

text \<open>
  What holds of a pool of \<^verbatim>\<open>limitConcurrency\<close> after the tasks of \<open>evs\<close> have settled: the
  tasks in flight were started and are counted in \<^verbatim>\<open>running\<close>; once a task has rejected,
  \<^verbatim>\<open>running\<close> stays above the number in flight; a task that was started and is no longer
  in flight is one of \<open>evs\<close>, and its record, if it returned one, is in \<^verbatim>\<open>results\<close>; and
  a resolved promise holds one record for every task. \<open>queue_state tasks limit i\<close> is the
  pool after the first \<open>i\<close> tasks have returned their records, in the order of the input.
\<close>

definition started_ok :: "(string + consulta) list \<Rightarrow> pool \<Rightarrow> bool" where
  "started_ok tasks p =
     (taskIndex p \<le> length tasks \<and> distinct (inflight p) \<and>
      (\<forall>i \<in> set (inflight p). i < taskIndex p) \<and>
      length (inflight p) \<le> running p \<and>
      length (results p) \<le> length tasks)"

definition rejected_seen :: "(string + consulta) list \<Rightarrow> pool \<Rightarrow> bool" where
  "rejected_seen tasks p = (\<exists>i < taskIndex p. i \<notin> set (inflight p) \<and> isl (tasks ! i))"

definition finished_ok :: "(string + consulta) list \<Rightarrow> nat list \<Rightarrow> pool \<Rightarrow> bool" where
  "finished_ok tasks evs p =
     (\<forall>i < taskIndex p. i \<notin> set (inflight p) \<longrightarrow>
        i \<in> set evs \<and>
        (\<forall>r. tasks ! i = Inr r \<longrightarrow> i < length (results p) \<and> results p ! i = Some r))"

definition resolved_ok :: "(string + consulta) list \<Rightarrow> nat list \<Rightarrow> pool \<Rightarrow> bool" where
  "resolved_ok tasks evs p =
     (\<forall>rs. settled p = Resolved rs \<longrightarrow>
        length rs = length tasks \<and>
        (\<forall>i < length tasks. i \<in> set evs \<and> (\<exists>r. tasks ! i = Inr r \<and> rs ! i = Some r)))"

definition pool_ok :: "(string + consulta) list \<Rightarrow> nat list \<Rightarrow> pool \<Rightarrow> bool" where
  "pool_ok tasks evs p =
     (started_ok tasks p \<and> (rejected_seen tasks p \<longrightarrow> length (inflight p) < running p) \<and>
      finished_ok tasks evs p \<and> resolved_ok tasks evs p)"

text \<open>
  What holds in addition while no task has rejected: \<^verbatim>\<open>running\<close> counts exactly the tasks
  in flight, and the promise is pending only while a task is still to start or to settle.
\<close>

definition pool_live :: "(string + consulta) list \<Rightarrow> pool \<Rightarrow> bool" where
  "pool_live tasks p =
     (running p = length (inflight p) \<and>
      (settled p = Pending \<longrightarrow> taskIndex p < length tasks \<or> 0 < running p) \<and>
      (\<forall>err. settled p \<noteq> Rejected err))"

definition queue_state :: "(string + consulta) list \<Rightarrow> int \<Rightarrow> nat \<Rightarrow> pool" where
  "queue_state tasks limit i =
     \<lparr>results = map (\<lambda>k. Some (projr (tasks ! k))) [0..<i],
      running = min (length tasks) (i + nat limit) - i,
      taskIndex = min (length tasks) (i + nat limit),
      inflight = [i..<min (length tasks) (i + nat limit)],
      settled = (if i = length tasks
                 then Resolved (map (\<lambda>k. Some (projr (tasks ! k))) [0..<i]) else Pending)\<rparr>"

section \<open>Example runs\<close>

text \<open>
  Concrete runs used to instantiate the theorems: a captcha that the service never solves,
  one that is solved at the second attempt, a page that never loads, and a machine with two
  processors whose second browser fails to start.
\<close>

definition never_solved :: "int \<Rightarrow> page_run" where
  "never_solved a = Solve_failed ''ERROR_ZERO_BALANCE''"

definition solved_second :: "int \<Rightarrow> page_run" where
  "solved_second a =
     (if a = 1 then Solve_failed ''ERROR_NO_SLOT_AVAILABLE''
      else Extracted ''PEREZ'' ''GOMEZ'' ''ANA'' ''MARIA'' ''REGISTRO ACTIVO'')"


definition took :: "int \<Rightarrow> string" where
  "took a = ''12.5s''"

definition laptop :: world where
  "laptop = \<lparr>NumCPU = 2,
     browser_err = (\<lambda>w. if w = 1 then Some ''chrome failed to start'' else None),
     acquire_err = (\<lambda>w j. None),
     page = (\<lambda>w j. if j = 1 then solved_second else if j = 2 then never_solved
                     else (\<lambda>a. Extracted ''DIAZ'' ''RUIZ'' ''LUIS'' [] ''REGISTRO ACTIVO'')),
     clock = (\<lambda>w j a. ''12.5s'')\<rparr>"

text \<open>
  Replies of the service: never ready; an error about the job and then a token; not ready
  and then unsolvable; unsolvable and then a token.
\<close>

definition still_working_go :: "nat \<Rightarrow> exchange" where
  "still_working_go i = Json \<lparr>Status = 0, Request = ''CAPCHA_NOT_READY''\<rparr>"

definition still_working :: "nat \<Rightarrow> reply" where
  "still_working k = Reply 0 ''CAPCHA_NOT_READY''"

definition wrong_id_then_token :: "nat \<Rightarrow> reply" where
  "wrong_id_then_token k = (if k = 1 then Reply 0 ''ERROR_WRONG_CAPTCHA_ID'' else Reply 1 ''TOKEN'')"

definition unsolvable_second :: "nat \<Rightarrow> reply" where
  "unsolvable_second k =
     (if k = 1 then Reply 0 ''CAPCHA_NOT_READY'' else Reply 0 ''ERROR_CAPTCHA_UNSOLVABLE'')"

definition unsolvable_then_token :: "nat \<Rightarrow> reply" where
  "unsolvable_then_token k =
     (if k = 1 then Reply 0 ''ERROR_CAPTCHA_UNSOLVABLE'' else Reply 1 ''TOKEN'')"

text \<open>
  A sheet with a header row, as the Go and as the JavaScript library give it, and runs in
  which the account has no funds or the balance could not be read.
\<close>

definition sheet_go :: "string list list" where
  "sheet_go = [[''Cedula'', ''Nombre''], ['' 1047473418 '', ''ANA''], [''73089347''], [''   ''], []]"

definition sheet_js :: "cell list list" where
  "sheet_js = [[Text ''Cedula'', Text ''Nombre''], [Text '' 1047473418 '', Text ''ANA''],
     [Whole 73089347], [Text ''   ''], []]"

definition no_funds_main :: main_world where
  "no_funds_main = \<lparr>balance_request = Str ''0'', mkdir_err = None, launch_err_main = None,
     page_err = None, visit_main = (\<lambda>i. Found ''PEREZ'' ''GOMEZ'' ''ANA'' ''MARIA'' ''REGISTRO ACTIVO''),
     finally_err = None\<rparr>"

definition no_funds_js :: js_world where
  "no_funds_js = \<lparr>balance = Some (Finite 0), launch_err = None,
     visit = (\<lambda>i. Data ''PEREZ'' ''GOMEZ'' ''ANA'' ''MARIA'' ''REGISTRO ACTIVO''),
     before_deadline = [0, 1], write_err = None, close_err = None\<rparr>"

definition balance_unknown_js :: js_world where
  "balance_unknown_js = no_funds_js\<lparr>balance := None\<rparr>"

text \<open>
  A machine on which everything works, five distinct identifiers, and a list in which one
  identifier occurs twice.
\<close>

definition found_all :: world where
  "found_all = \<lparr>NumCPU = 2, browser_err = (\<lambda>w. None), acquire_err = (\<lambda>w j. None),
     page = (\<lambda>w j a. Extracted ''DIAZ'' ''RUIZ'' ''LUIS'' [] ''REGISTRO ACTIVO''),
     clock = (\<lambda>w j a. ''12.5s'')\<rparr>"

definition five :: "string list" where
  "five = [''100'', ''200'', ''300'', ''400'', ''500'']"

definition twice :: "string list" where
  "twice = [''7'', ''8'', ''7'']"

text \<open>
  Runs of src/js/main.js in which only the first task settles before the deadline, and in
  which both do; a run of src/main.js in which the captcha of the second identifier is not
  solved.
\<close>

definition slow_site :: js_world where
  "slow_site = \<lparr>balance = Some (Finite 10), launch_err = None,
     visit = (\<lambda>i. Data ''PEREZ'' ''GOMEZ'' ''ANA'' ''MARIA'' ''REGISTRO ACTIVO''),
     before_deadline = [0], write_err = None, close_err = None\<rparr>"

definition quick_site :: js_world where
  "quick_site = \<lparr>balance = Some (Finite 10), launch_err = None,
     visit = (\<lambda>i. if i = 0 then Threw ''Navigation timeout of 5000 ms exceeded''
                    else Data ''PEREZ'' ''GOMEZ'' ''ANA'' ''MARIA'' ''REGISTRO ACTIVO''),
     before_deadline = [0, 1], write_err = None, close_err = None\<rparr>"

definition unsolved_second :: main_world where
  "unsolved_second = \<lparr>balance_request = Str ''12.5'', mkdir_err = None, launch_err_main = None,
     page_err = None,
     visit_main = (\<lambda>i. if i = 1 then Unsolved
                         else Found ''PEREZ'' ''GOMEZ'' ''ANA'' ''MARIA'' ''REGISTRO ACTIVO''),
     finally_err = None\<rparr>"



definition shared :: "string list" where
  "shared = [''7'', ''8'', ''7'', ''9'']"

definition second_first :: js_world where
  "second_first = \<lparr>balance = Some (Finite 10), launch_err = None,
     visit = (\<lambda>i. if i = 0 then Threw ''Navigation timeout of 5000 ms exceeded''
                    else Data ''PEREZ'' ''GOMEZ'' ''ANA'' ''MARIA'' ''REGISTRO ACTIVO''),
     before_deadline = [1, 0], write_err = None, close_err = None\<rparr>"

section \<open>Lemmas\<close>


lemma Attempts_processCedula: "Attempts (processCedula c r el a) = a"
  by (cases r) (simp_all add: failed_def Result_zero_def)

lemma Cedula_processCedula: "Cedula (processCedula c r el a) = c"
  by (cases r) (simp_all add: failed_def Result_zero_def)

lemma not_captcha_failed_zero: "\<not> captcha_failed Result_zero"
  by (simp add: captcha_failed_def Result_zero_def)

lemma captcha_failed_failed:
  "captcha_failed (failed c a el msg) = (msg \<noteq> [] \<and> Contains msg ''captcha'')"
  by (simp add: captcha_failed_def failed_def Result_zero_def)

lemma Attempts_failed: "Attempts (failed c a el msg) = a"
  by (simp add: failed_def)

lemma captcha_failed_Extracted:
  "\<not> captcha_failed (Result_zero\<lparr>Cedula := c, Attempts := a, PrimerApellido := pa,
       SegundoApellido := sa, PrimerNombre := pn, SegundoNombre := otros, Estado := es,
       ProcessingTime := el\<rparr>)"
  by (simp add: captcha_failed_def Result_zero_def)

lemmas result_simps =
  Attempts_processCedula Cedula_processCedula not_captcha_failed_zero captcha_failed_failed
  Attempts_failed captcha_failed_Extracted

lemma retry_loop_stop:
  "m < attempt \<Longrightarrow> retry_loop m run el c attempt result = \<lparr>final = result, calls = [], sleeps = 0\<rparr>"
  by (subst retry_loop.simps) simp

lemma retry_loop_done:
  "attempt \<le> m \<Longrightarrow> \<not> captcha_failed (processCedula c (run attempt) (el attempt) attempt) \<Longrightarrow>
   retry_loop m run el c attempt result =
     \<lparr>final = processCedula c (run attempt) (el attempt) attempt, calls = [attempt], sleeps = 0\<rparr>"
  by (subst retry_loop.simps) (auto simp: captcha_failed_def)

lemma retry_loop_again:
  "attempt \<le> m \<Longrightarrow> captcha_failed (processCedula c (run attempt) (el attempt) attempt) \<Longrightarrow>
   retry_loop m run el c attempt result =
     after_sleep attempt (retry_loop m run el c (attempt + 1)
       (processCedula c (run attempt) (el attempt) attempt))"
  by (subst retry_loop.simps) (auto simp: captcha_failed_def)


lemma retry_loop_exhausted_calls:
  "attempt \<le> m \<Longrightarrow> captcha_failed (final (retry_loop m run el c attempt result)) \<Longrightarrow>
   Attempts (final (retry_loop m run el c attempt result)) = m \<and>
   calls (retry_loop m run el c attempt result) = [attempt..m]"
proof (induction m run el c attempt result rule: retry_loop.induct)
  case (1 m run el c attempt result)
  let ?P = "processCedula c (run attempt) (el attempt) attempt"
  show ?case
  proof (cases "captcha_failed ?P")
    case False
    then show ?thesis using "1.prems" by (simp add: retry_loop_done)
  next
    case cf: True
    have up: "[attempt..m] = attempt # [attempt + 1..m]"
      using "1.prems"(1) by (simp add: upto_rec1)
    show ?thesis
    proof (cases "attempt + 1 \<le> m")
      case True
      then show ?thesis using "1.IH" "1.prems" cf up
        by (simp add: retry_loop_again after_sleep_def captcha_failed_def)
    next
      case False
      then show ?thesis using "1.prems" cf up
        by (simp add: result_simps retry_loop_again retry_loop_stop after_sleep_def)
    qed
  qed
qed

lemma retry_loop_bounds:
  "attempt \<le> m \<Longrightarrow>
   Cedula (final (retry_loop m run el c attempt result)) = c \<and>
   attempt \<le> Attempts (final (retry_loop m run el c attempt result)) \<and>
   Attempts (final (retry_loop m run el c attempt result)) \<le> m"
proof (induction m run el c attempt result rule: retry_loop.induct)
  case (1 m run el c attempt result)
  let ?P = "processCedula c (run attempt) (el attempt) attempt"
  show ?case
  proof (cases "captcha_failed ?P")
    case False
    then show ?thesis using "1.prems" by (simp add: result_simps retry_loop_done)
  next
    case cf: True
    show ?thesis
    proof (cases "attempt + 1 \<le> m")
      case True
      then show ?thesis using "1.IH" "1.prems" cf
        by (simp add: retry_loop_again after_sleep_def captcha_failed_def)
    next
      case False
      then show ?thesis using "1.prems" cf
        by (simp add: result_simps retry_loop_again retry_loop_stop after_sleep_def)
    qed
  qed
qed

lemma set_arrival: "set (arrival order outs) = (\<Union>out \<in> set outs. set out)"
proof (induction order arbitrary: outs)
  case Nil
  then show ?case by simp
next
  case (Cons w order)
  show ?case
  proof (cases "w < length outs")
    case False
    then show ?thesis using Cons.IH by simp
  next
    case True
    show ?thesis
    proof (cases "outs ! w")
      case Nil
      then show ?thesis using True Cons.IH by simp
    next
      case (Cons r rest)
      have split: "outs = take w outs @ (r # rest) # drop (Suc w) outs"
        using True Cons by (metis id_take_nth_drop)
      have upd: "outs[w := rest] = take w outs @ rest # drop (Suc w) outs"
        using True by (simp add: upd_conv_take_nth_drop)
      have "(\<Union>out \<in> set outs. set out) = insert r (\<Union>out \<in> set (outs[w := rest]). set out)"
        by (subst split, subst upd) auto
      then show ?thesis using True Cons Cons.IH[of "outs[w := rest]"] by simp
    qed
  qed
qed

lemma length_collector: "length (collector idx rs received) = length rs"
  unfolding collector_def
  by (induction received arbitrary: rs) (auto simp: store_def split: option.splits)

lemma collector_snoc: "collector idx rs (received @ [r]) = store idx (collector idx rs received) r"
  by (simp add: collector_def)

lemma collector_untouched:
  "\<forall>r \<in> set received. idx (Cedula r) \<noteq> Some i \<Longrightarrow> collector idx rs received ! i = rs ! i"
proof (induction received rule: rev_induct)
  case Nil
  then show ?case by (simp add: collector_def)
next
  case (snoc r received)
  then show ?case
    by (auto simp: collector_snoc store_def split: option.splits)
qed


lemma set_collector: "set (collector idx rs received) \<subseteq> set rs \<union> set received"
proof (induction received rule: rev_induct)
  case Nil
  then show ?case by (simp add: collector_def)
next
  case (snoc r received)
  have "set (store idx xs r) \<subseteq> insert r (set xs)" for xs
    by (auto simp: store_def split: option.splits dest: set_update_subset_insert[THEN subsetD])
  then show ?case using snoc by (fastforce simp: collector_snoc)
qed

lemma set_delivered:
  "set (delivered cfg e order cedulas) = (\<Union>out \<in> set (map sent (spawned cfg e cedulas)). set out)"
  by (simp add: delivered_def set_arrival)

lemma ProcessCedulas_members:
  assumes "r \<in> set (ProcessCedulas cfg e order stored cedulas)"
  shows "r = Result_zero \<or> r \<in> set (delivered cfg e order cedulas)"
proof -
  from assms set_collector[of "cedulaIndices cedulas" "replicate (length cedulas) Result_zero"
      "take stored (delivered cfg e order cedulas)"]
  have "r \<in> set (replicate (length cedulas) Result_zero) \<or>
      r \<in> set (take stored (delivered cfg e order cedulas))"
    unfolding ProcessCedulas_def by blast
  then show ?thesis
  proof
    assume "r \<in> set (replicate (length cedulas) Result_zero)"
    then show ?thesis by simp
  next
    assume "r \<in> set (take stored (delivered cfg e order cedulas))"
    then show ?thesis by (blast dest: in_set_takeD)
  qed
qed

lemma collector_last:
  "i < length rs \<Longrightarrow>
   collector idx rs received ! i =
     (if filter (\<lambda>r. idx (Cedula r) = Some i) received = [] then rs ! i
      else last (filter (\<lambda>r. idx (Cedula r) = Some i) received))"
proof (induction received rule: rev_induct)
  case Nil
  then show ?case by (simp add: collector_def)
next
  case (snoc x received)
  have len: "i < length (collector idx rs received)"
    using snoc.prems by (simp add: length_collector)
  show ?case
  proof (cases "idx (Cedula x)")
    case None
    with snoc show ?thesis by (simp add: collector_snoc store_def)
  next
    case (Some j)
    show ?thesis
    proof (cases "j = i")
      case True
      with Some len show ?thesis by (simp add: collector_snoc store_def)
    next
      case False
      with Some snoc show ?thesis by (simp add: collector_snoc store_def)
    qed
  qed
qed

lemma poll_go_step:
  "i < 30 \<Longrightarrow> not_ready_go (get i) \<Longrightarrow> poll_go get i = poll_go get (Suc i)"
  by (subst poll_go.simps, cases "get i") (simp_all add: not_ready_go_def)

lemma poll_go_end: "\<not> i < 30 \<Longrightarrow> poll_go get i = \<lparr>outcome = Inl timeout_go, polls = i\<rparr>"
  by (subst poll_go.simps) (simp add: timeout_go_def)

lemma poll_go_waiting:
  "\<forall>j. not_ready_go (get j) \<Longrightarrow> 30 - i = n \<Longrightarrow> i \<le> 30 \<Longrightarrow>
   poll_go get i = \<lparr>outcome = Inl timeout_go, polls = 30\<rparr>"
proof (induction n arbitrary: i)
  case 0
  then have "i = 30" by simp
  then show ?case by (simp add: poll_go_end)
next
  case (Suc n)
  then have "i < 30" and "30 - Suc i = n" and "Suc i \<le> 30" by simp_all
  with Suc show ?case by (simp add: poll_go_step)
qed

lemma poll_main_step:
  "attempts < 30 \<Longrightarrow> (\<forall>request. get (Suc attempts) \<noteq> Reply 1 request) \<Longrightarrow>
   poll_main get attempts = poll_main get (Suc attempts)"
  by (subst poll_main.simps, cases "get (Suc attempts)") simp_all

lemma poll_main_end: "\<not> attempts < 30 \<Longrightarrow> poll_main get attempts = \<lparr>outcome = None, polls = attempts\<rparr>"
  by (subst poll_main.simps) simp

lemma poll_main_waiting:
  "\<forall>j. \<forall>request. get j \<noteq> Reply 1 request \<Longrightarrow> 30 - i = n \<Longrightarrow> i \<le> 30 \<Longrightarrow>
   poll_main get i = \<lparr>outcome = None, polls = 30\<rparr>"
proof (induction n arbitrary: i)
  case 0
  then have "i = 30" by simp
  then show ?case by (simp add: poll_main_end)
next
  case (Suc n)
  then have "i < 30" and "30 - Suc i = n" and "Suc i \<le> 30" by simp_all
  with Suc show ?case by (simp add: poll_main_step)
qed

lemma poll_js_step:
  "attempts < 20 \<Longrightarrow> polls_on (get (Suc attempts)) \<Longrightarrow>
   poll_js get attempts = poll_js get (Suc attempts)"
  by (subst poll_js.simps, cases "get (Suc attempts)") (auto simp: polls_on_def)

lemma poll_js_end: "\<not> attempts < 20 \<Longrightarrow> poll_js get attempts = \<lparr>outcome = None, polls = attempts\<rparr>"
  by (subst poll_js.simps) simp

lemma poll_js_solved:
  "attempts < 20 \<Longrightarrow> get (Suc attempts) = Reply 1 request \<Longrightarrow>
   poll_js get attempts = \<lparr>outcome = Some request, polls = Suc attempts\<rparr>"
  by (subst poll_js.simps) simp

lemma poll_js_unsolvable:
  "attempts < 20 \<Longrightarrow> get (Suc attempts) = Reply status request \<Longrightarrow> status \<noteq> 1 \<Longrightarrow>
   request \<noteq> ''CAPCHA_NOT_READY'' \<Longrightarrow> Contains request ''ERROR_CAPTCHA_UNSOLVABLE'' \<Longrightarrow>
   poll_js get attempts = \<lparr>outcome = None, polls = Suc attempts\<rparr>"
  by (subst poll_js.simps) simp

lemma poll_js_waiting:
  "\<forall>j. polls_on (get j) \<Longrightarrow> 20 - i = n \<Longrightarrow> i \<le> 20 \<Longrightarrow>
   poll_js get i = \<lparr>outcome = None, polls = 20\<rparr>"
proof (induction n arbitrary: i)
  case 0
  then have "i = 20" by simp
  then show ?case by (simp add: poll_js_end)
next
  case (Suc n)
  then have "i < 20" and "20 - Suc i = n" and "Suc i \<le> 20" by simp_all
  with Suc show ?case by (simp add: poll_js_step)
qed

lemma poll_js_skip:
  "\<forall>j. i < j \<and> j < k \<longrightarrow> polls_on (get j) \<Longrightarrow> k - i = n \<Longrightarrow> i < k \<Longrightarrow> k \<le> 20 \<Longrightarrow>
   poll_js get i = poll_js get (k - 1)"
proof (induction n arbitrary: i)
  case 0
  then show ?case by simp
next
  case (Suc n)
  show ?case
  proof (cases "Suc i = k")
    case True
    then show ?thesis by auto
  next
    case False
    with Suc.prems have "Suc i < k" and "k - Suc i = n" by simp_all
    moreover have "\<forall>j. Suc i < j \<and> j < k \<longrightarrow> polls_on (get j)"
      using Suc.prems(1) by simp
    ultimately have "poll_js get (Suc i) = poll_js get (k - 1)"
      using Suc.IH Suc.prems(4) by blast
    moreover have "polls_on (get (Suc i))" using Suc.prems(1) \<open>Suc i < k\<close> by simp
    moreover have "i < 20" using Suc.prems by simp
    ultimately show ?thesis by (simp add: poll_js_step)
  qed
qed

lemma not_ready_polls_on: "not_ready r \<Longrightarrow> polls_on r"
  by (auto simp: not_ready_def polls_on_def split: reply.splits)

lemma not_ready_not_solved: "not_ready r \<Longrightarrow> r \<noteq> Reply 1 request"
  by (auto simp: not_ready_def)

lemma indices_append:
  "indices (xs @ ys) i m = indices ys (i + length xs) (indices xs i m)"
  by (induction xs arbitrary: i m) simp_all

lemma cedulaIndices_snoc:
  "cedulaIndices (xs @ [x]) = (cedulaIndices xs)(x \<mapsto> length xs)"
  by (simp add: cedulaIndices_def indices_append)

lemma cedulaIndices_Nil: "cedulaIndices [] c = None"
  by (simp add: cedulaIndices_def)

lemma cedulaIndices_last:
  "cedulaIndices cedulas c = Some k \<longleftrightarrow>
     k < length cedulas \<and> cedulas ! k = c \<and>
     (\<forall>j. k < j \<and> j < length cedulas \<longrightarrow> cedulas ! j \<noteq> c)"
proof (induction cedulas arbitrary: k rule: rev_induct)
  case Nil
  then show ?case by (simp add: cedulaIndices_Nil)
next
  case (snoc x xs)
  show ?case
  proof (cases "c = x")
    case True
    have "(k < length (xs @ [x]) \<and> (xs @ [x]) ! k = x \<and>
        (\<forall>j. k < j \<and> j < length (xs @ [x]) \<longrightarrow> (xs @ [x]) ! j \<noteq> x)) = (k = length xs)"
    proof
      assume h: "k < length (xs @ [x]) \<and> (xs @ [x]) ! k = x \<and>
        (\<forall>j. k < j \<and> j < length (xs @ [x]) \<longrightarrow> (xs @ [x]) ! j \<noteq> x)"
      show "k = length xs"
      proof (rule ccontr)
        assume "k \<noteq> length xs"
        with h have "k < length xs" by simp
        moreover from h have "\<forall>j. k < j \<and> j < length (xs @ [x]) \<longrightarrow> (xs @ [x]) ! j \<noteq> x"
          by simp
        ultimately have "(xs @ [x]) ! length xs \<noteq> x"
          by (metis length_append_singleton lessI)
        then show False by simp
      qed
    next
      assume "k = length xs"
      then show "k < length (xs @ [x]) \<and> (xs @ [x]) ! k = x \<and>
        (\<forall>j. k < j \<and> j < length (xs @ [x]) \<longrightarrow> (xs @ [x]) ! j \<noteq> x)" by auto
    qed
    with True show ?thesis by (auto simp: cedulaIndices_snoc)
  next
    case False
    have "(k < length (xs @ [x]) \<and> (xs @ [x]) ! k = c \<and>
        (\<forall>j. k < j \<and> j < length (xs @ [x]) \<longrightarrow> (xs @ [x]) ! j \<noteq> c)) =
      (k < length xs \<and> xs ! k = c \<and> (\<forall>j. k < j \<and> j < length xs \<longrightarrow> xs ! j \<noteq> c))"
    proof
      assume h: "k < length (xs @ [x]) \<and> (xs @ [x]) ! k = c \<and>
        (\<forall>j. k < j \<and> j < length (xs @ [x]) \<longrightarrow> (xs @ [x]) ! j \<noteq> c)"
      have klt: "k < length xs"
      proof (rule ccontr)
        assume "\<not> k < length xs"
        with h have "k = length xs" by simp
        with h False show False by simp
      qed
      moreover have "xs ! k = c" using h klt by (simp add: nth_append)
      moreover have "xs ! j \<noteq> c" if "k < j \<and> j < length xs" for j
      proof -
        from that h have "(xs @ [x]) ! j \<noteq> c" by simp
        with that show ?thesis by (simp add: nth_append)
      qed
      ultimately show "k < length xs \<and> xs ! k = c \<and> (\<forall>j. k < j \<and> j < length xs \<longrightarrow> xs ! j \<noteq> c)"
        by simp
    next
      assume h: "k < length xs \<and> xs ! k = c \<and> (\<forall>j. k < j \<and> j < length xs \<longrightarrow> xs ! j \<noteq> c)"
      have "(xs @ [x]) ! j \<noteq> c" if "k < j \<and> j < length (xs @ [x])" for j
      proof (cases "j < length xs")
        case True
        with that h show ?thesis by (simp add: nth_append)
      next
        case False
        with that have "j = length xs" by simp
        with \<open>c \<noteq> x\<close> show ?thesis by simp
      qed
      with h show "k < length (xs @ [x]) \<and> (xs @ [x]) ! k = c \<and>
        (\<forall>j. k < j \<and> j < length (xs @ [x]) \<longrightarrow> (xs @ [x]) ! j \<noteq> c)"
        by (simp add: nth_append)
    qed
    with False snoc.IH[of k] show ?thesis by (simp add: cedulaIndices_snoc)
  qed
qed


lemma cedulaIndices_bound: "cedulaIndices cedulas c = Some k \<Longrightarrow> k < length cedulas"
  by (simp add: cedulaIndices_last)

lemma work_sent_mem:
  "r \<in> set (sent (work cfg e w j0 cs)) \<Longrightarrow>
   \<exists>j < length cs. acquire_err e w (j0 + j) = None \<and>
     r = final (retry_loop (MaxRetries (timeoutConfig cfg)) (page e w (j0 + j)) (clock e w (j0 + j))
           (cs ! j) 1 Result_zero)"
proof (induction cs arbitrary: j0)
  case Nil
  then show ?case by simp
next
  case (Cons c cs)
  show ?case
  proof (cases "acquire_err e w j0")
    case None
    with Cons.prems consider
      "r = final (retry_loop (MaxRetries (timeoutConfig cfg)) (page e w j0) (clock e w j0) c 1 Result_zero)"
      | "r \<in> set (sent (work cfg e w (Suc j0) cs))"
      by auto
    then show ?thesis
    proof cases
      case 1
      with None show ?thesis by (intro exI[of _ 0]) simp
    next
      case 2
      from Cons.IH[OF 2] obtain j where "j < length cs"
        "acquire_err e w (Suc j0 + j) = None"
        "r = final (retry_loop (MaxRetries (timeoutConfig cfg)) (page e w (Suc j0 + j))
           (clock e w (Suc j0 + j)) (cs ! j) 1 Result_zero)"
        by auto
      then show ?thesis by (intro exI[of _ "Suc j"]) simp
    qed
  next
    case (Some err)
    with Cons.prems have "r \<in> set (sent (work cfg e w (Suc j0) cs))" by simp
    from Cons.IH[OF this] obtain j where "j < length cs"
        "acquire_err e w (Suc j0 + j) = None"
        "r = final (retry_loop (MaxRetries (timeoutConfig cfg)) (page e w (Suc j0 + j))
           (clock e w (Suc j0 + j)) (cs ! j) 1 Result_zero)"
      by auto
    then show ?thesis by (intro exI[of _ "Suc j"]) simp
  qed
qed



















lemma slot_of_earlier_occurrence:
  assumes "i < j" and "j < length cs" and "cs ! i = cs ! j"
  shows "ProcessCedulas cfg e order stored cs ! i = Result_zero"
proof -
  have "cedulaIndices cs c \<noteq> Some i" for c
  proof
    assume "cedulaIndices cs c = Some i"
    then have "cs ! i = c" and "\<forall>j'. i < j' \<and> j' < length cs \<longrightarrow> cs ! j' \<noteq> c"
      by (simp_all add: cedulaIndices_last)
    with assms show False by auto
  qed
  then have "collector (cedulaIndices cs) (replicate (length cs) Result_zero)
      (take stored (delivered cfg e order cs)) ! i = replicate (length cs) Result_zero ! i"
    by (intro collector_untouched) simp
  with assms show ?thesis by (simp add: ProcessCedulas_def)
qed

lemma slot_of_last_occurrence:
  assumes k: "k < length cs" and at: "cs ! k = c"
    and later: "\<forall>j. k < j \<and> j < length cs \<longrightarrow> cs ! j \<noteq> c"
    and some: "filter (\<lambda>r. Cedula r = c) (take stored (delivered cfg e order cs)) \<noteq> []"
  shows "ProcessCedulas cfg e order stored cs ! k =
           last (filter (\<lambda>r. Cedula r = c) (take stored (delivered cfg e order cs)))"
proof -
  have "(cedulaIndices cs c' = Some k) = (c' = c)" for c'
    using k at later by (auto simp: cedulaIndices_last)
  then have same: "(\<lambda>r. cedulaIndices cs (Cedula r) = Some k) = (\<lambda>r. Cedula r = c)"
    by simp
  have "k < length (replicate (length cs) Result_zero)" using k by simp
  from collector_last[OF this, of "cedulaIndices cs" "take stored (delivered cfg e order cs)"]
  show ?thesis using some unfolding same ProcessCedulas_def by simp
qed

lemma store_last:
  "cedulaIndices cs (Cedula r) = Some k \<Longrightarrow> store (cedulaIndices cs) slots r = slots[k := r]"
  by (simp add: store_def)

lemma default_retries: "MaxRetries (timeoutConfig (getDefaultConfig key n)) = 3"
  by (simp add: getDefaultConfig_def)


lemma start_step_ok:
  assumes ok: "pool_ok tasks evs p" and more: "taskIndex p < length tasks"
  shows "pool_ok tasks evs
           (p\<lparr>running := Suc (running p), inflight := inflight p @ [taskIndex p],
              taskIndex := Suc (taskIndex p)\<rparr>)"
proof -
  let ?q = "p\<lparr>running := Suc (running p), inflight := inflight p @ [taskIndex p],
              taskIndex := Suc (taskIndex p)\<rparr>"
  from ok have s: "started_ok tasks p" and f: "finished_ok tasks evs p"
    and r: "resolved_ok tasks evs p"
    and j: "rejected_seen tasks p \<longrightarrow> length (inflight p) < running p"
    by (simp_all add: pool_ok_def)
  from s have fresh: "taskIndex p \<notin> set (inflight p)"
    by (auto simp: started_ok_def)
  have s': "started_ok tasks ?q"
    using s more fresh by (auto simp: started_ok_def less_Suc_eq)
  have seen: "rejected_seen tasks ?q \<Longrightarrow> rejected_seen tasks p"
    by (auto simp: rejected_seen_def less_Suc_eq)
  have j': "rejected_seen tasks ?q \<longrightarrow> length (inflight ?q) < running ?q"
    using j seen by auto
  have f': "finished_ok tasks evs ?q"
    using f by (auto simp: finished_ok_def less_Suc_eq)
  have r': "resolved_ok tasks evs ?q"
    using r by (simp add: resolved_ok_def)
  from s' j' f' r' show ?thesis by (simp add: pool_ok_def)
qed

lemma start_tasks_ok:
  "pool_ok tasks evs p \<Longrightarrow> n = length tasks \<Longrightarrow> pool_ok tasks evs (start_tasks limit n p)"
proof (induction limit n p rule: start_tasks.induct)
  case (1 limit n p)
  show ?case
  proof (cases "int (running p) < limit \<and> taskIndex p < n")
    case True
    then have "pool_ok tasks evs
           (p\<lparr>running := Suc (running p), inflight := inflight p @ [taskIndex p],
              taskIndex := Suc (taskIndex p)\<rparr>)"
      using "1.prems" by (intro start_step_ok) simp_all
    from "1.IH"[OF True this "1.prems"(2)] True show ?thesis
      by (subst start_tasks.simps) simp
  next
    case False
    then show ?thesis using "1.prems" by (subst start_tasks.simps) auto
  qed
qed

lemma runTask_ok:
  assumes ok: "pool_ok tasks evs p"
  shows "pool_ok tasks evs (runTask limit (length tasks) p)"
proof (cases "length tasks \<le> taskIndex p \<and> running p = 0")
  case False
  then have "runTask limit (length tasks) p = start_tasks limit (length tasks) p"
    by (auto simp: runTask_def)
  with start_tasks_ok[OF ok refl] show ?thesis by simp
next
  case True
  from ok have s: "started_ok tasks p" and f: "finished_ok tasks evs p"
    and r: "resolved_ok tasks evs p"
    and j: "rejected_seen tasks p \<longrightarrow> length (inflight p) < running p"
    by (simp_all add: pool_ok_def)
  from True s have all: "taskIndex p = length tasks" and none: "inflight p = []"
    by (auto simp: started_ok_def)
  from True j have norej: "\<not> rejected_seen tasks p" by auto
  have each: "i \<in> set evs \<and> (\<exists>r. tasks ! i = Inr r \<and> i < length (results p) \<and> results p ! i = Some r)"
    if "i < length tasks" for i
  proof -
    from norej that all none have "\<not> isl (tasks ! i)"
      by (auto simp: rejected_seen_def)
    then obtain r where "tasks ! i = Inr r" by (cases "tasks ! i") auto
    with f that all none show ?thesis by (auto simp: finished_ok_def)
  qed
  have len: "length (results p) = length tasks"
  proof (rule antisym)
    show "length (results p) \<le> length tasks" using s by (simp add: started_ok_def)
    show "length tasks \<le> length (results p)"
    proof (cases "length tasks")
      case 0
      then show ?thesis by simp
    next
      case (Suc m)
      then have "m < length tasks" by simp
      from each[OF this] have "m < length (results p)" by auto
      with Suc show ?thesis by simp
    qed
  qed
  let ?q = "p\<lparr>settled := settle (settled p) (Resolved (results p))\<rparr>"
  have q: "runTask limit (length tasks) p = ?q"
    using True by (simp add: runTask_def)
  have "started_ok tasks ?q" using s by (simp add: started_ok_def)
  moreover have "rejected_seen tasks ?q \<longrightarrow> length (inflight ?q) < running ?q"
    using j by (simp add: rejected_seen_def)
  moreover have "finished_ok tasks evs ?q" using f by (simp add: finished_ok_def)
  moreover have "resolved_ok tasks evs ?q"
  proof (cases "settled p")
    case Pending
    then have "settled ?q = Resolved (results p)" by (simp add: settle_def)
    then show ?thesis using len each by (auto simp: resolved_ok_def)
  next
    case (Resolved rs)
    then have "settled ?q = settled p" by (simp add: settle_def)
    then show ?thesis using r by (simp add: resolved_ok_def)
  next
    case (Rejected err)
    then have "settled ?q = settled p" by (simp add: settle_def)
    then show ?thesis using r by (simp add: resolved_ok_def)
  qed
  ultimately show ?thesis unfolding q by (simp add: pool_ok_def)
qed

lemma pool_ok_more_events:
  "pool_ok tasks evs p \<Longrightarrow> set evs \<subseteq> set evs' \<Longrightarrow> pool_ok tasks evs' p"
  unfolding pool_ok_def finished_ok_def resolved_ok_def by blast

lemma length_assign: "length (assign xs i v) = max (length xs) (Suc i)"
  by (auto simp: assign_def)

lemma nth_assign_same: "assign xs i v ! i = Some v"
  by (simp add: assign_def nth_append)

lemma nth_assign_other: "k \<noteq> i \<Longrightarrow> k < length xs \<Longrightarrow> assign xs i v ! k = xs ! k"
  by (simp add: assign_def nth_append)

lemma length_removeAll_distinct:
  "distinct xs \<Longrightarrow> i \<in> set xs \<Longrightarrow> Suc (length (removeAll i xs)) = length xs"
  by (induction xs) auto

lemma resolved_step_ok:
  assumes ok: "pool_ok tasks evs p" and fl: "i \<in> set (inflight p)" and res: "tasks ! i = Inr result"
  shows "pool_ok tasks (evs @ [i])
           (p\<lparr>inflight := removeAll i (inflight p), results := assign (results p) i result,
              running := running p - 1\<rparr>)"
proof -
  let ?q = "p\<lparr>inflight := removeAll i (inflight p), results := assign (results p) i result,
              running := running p - 1\<rparr>"
  from ok have s: "started_ok tasks p" and f: "finished_ok tasks evs p"
    and r: "resolved_ok tasks evs p"
    and j: "rejected_seen tasks p \<longrightarrow> length (inflight p) < running p"
    by (simp_all add: pool_ok_def)
  from s fl have i: "i < taskIndex p" and d: "distinct (inflight p)"
    and n: "taskIndex p \<le> length tasks" and lr: "length (inflight p) \<le> running p"
    and rl: "length (results p) \<le> length tasks"
    by (auto simp: started_ok_def)
  have len: "Suc (length (removeAll i (inflight p))) = length (inflight p)"
    using d fl by (rule length_removeAll_distinct)
  have s': "started_ok tasks ?q"
    using s i n len lr rl by (auto simp: started_ok_def length_assign distinct_removeAll)
  have seen: "rejected_seen tasks ?q \<Longrightarrow> rejected_seen tasks p"
    using res by (auto simp: rejected_seen_def)
  have j': "rejected_seen tasks ?q \<longrightarrow> length (inflight ?q) < running ?q"
  proof
    assume "rejected_seen tasks ?q"
    then have "length (inflight p) < running p" using seen j by simp
    with len show "length (inflight ?q) < running ?q" by simp
  qed
  have f': "finished_ok tasks (evs @ [i]) ?q"
    unfolding finished_ok_def
  proof (intro allI impI)
    fix k assume k: "k < taskIndex ?q" and out: "k \<notin> set (inflight ?q)"
    show "k \<in> set (evs @ [i]) \<and>
        (\<forall>r. tasks ! k = Inr r \<longrightarrow> k < length (results ?q) \<and> results ?q ! k = Some r)"
    proof (cases "k = i")
      case True
      with res show ?thesis by (simp add: length_assign nth_assign_same)
    next
      case False
      with k out have "k < taskIndex p" and "k \<notin> set (inflight p)" by simp_all
      with f have old: "k \<in> set evs"
        "\<forall>r. tasks ! k = Inr r \<longrightarrow> k < length (results p) \<and> results p ! k = Some r"
        by (simp_all add: finished_ok_def)
      then show ?thesis using False
        by (auto simp: length_assign nth_assign_other)
    qed
  qed
  have r': "resolved_ok tasks (evs @ [i]) ?q"
    using r by (auto simp: resolved_ok_def)
  from s' j' f' r' show ?thesis by (simp add: pool_ok_def)
qed

lemma rejected_step_ok:
  assumes ok: "pool_ok tasks evs p" and fl: "i \<in> set (inflight p)" and rej: "tasks ! i = Inl err'"
  shows "pool_ok tasks (evs @ [i])
           (p\<lparr>inflight := removeAll i (inflight p), settled := settle (settled p) (Rejected err)\<rparr>)"
proof -
  let ?q = "p\<lparr>inflight := removeAll i (inflight p), settled := settle (settled p) (Rejected err)\<rparr>"
  from ok have s: "started_ok tasks p" and f: "finished_ok tasks evs p"
    and r: "resolved_ok tasks evs p"
    by (simp_all add: pool_ok_def)
  from s fl have i: "i < taskIndex p" and d: "distinct (inflight p)"
    and lr: "length (inflight p) \<le> running p"
    by (auto simp: started_ok_def)
  have len: "Suc (length (removeAll i (inflight p))) = length (inflight p)"
    using d fl by (rule length_removeAll_distinct)
  have s': "started_ok tasks ?q"
    using s len lr by (auto simp: started_ok_def distinct_removeAll)
  have j': "rejected_seen tasks ?q \<longrightarrow> length (inflight ?q) < running ?q"
    using len lr by simp
  have f': "finished_ok tasks (evs @ [i]) ?q"
    unfolding finished_ok_def
  proof (intro allI impI)
    fix k assume k: "k < taskIndex ?q" and out: "k \<notin> set (inflight ?q)"
    show "k \<in> set (evs @ [i]) \<and>
        (\<forall>r. tasks ! k = Inr r \<longrightarrow> k < length (results ?q) \<and> results ?q ! k = Some r)"
    proof (cases "k = i")
      case True
      with rej show ?thesis by simp
    next
      case False
      with k out have "k < taskIndex p" and "k \<notin> set (inflight p)" by simp_all
      with f show ?thesis by (simp add: finished_ok_def)
    qed
  qed
  have r': "resolved_ok tasks (evs @ [i]) ?q"
  proof (cases "settled p")
    case Pending
    then show ?thesis by (simp add: resolved_ok_def settle_def)
  next
    case (Resolved rs)
    then show ?thesis using r by (auto simp: resolved_ok_def settle_def)
  next
    case (Rejected e)
    then show ?thesis by (simp add: resolved_ok_def settle_def)
  qed
  from s' j' f' r' show ?thesis by (simp add: pool_ok_def)
qed

lemma task_settles_ok:
  assumes ok: "pool_ok tasks evs p"
  shows "pool_ok tasks (evs @ [i]) (task_settles limit tasks p i)"
proof (cases "i \<in> set (inflight p)")
  case False
  then have "task_settles limit tasks p i = p" by (simp add: task_settles_def)
  moreover have "pool_ok tasks (evs @ [i]) p"
    by (rule pool_ok_more_events[OF ok]) auto
  ultimately show ?thesis by simp
next
  case True
  show ?thesis
  proof (cases "tasks ! i")
    case (Inl err)
    from rejected_step_ok[OF ok True Inl, of err] True Inl show ?thesis
      by (simp add: task_settles_def)
  next
    case (Inr result)
    from runTask_ok[OF resolved_step_ok[OF ok True Inr], of limit] True Inr show ?thesis
      by (simp add: task_settles_def)
  qed
qed

lemma foldl_task_settles_ok:
  "pool_ok tasks evs p \<Longrightarrow> pool_ok tasks (evs @ es) (foldl (task_settles limit tasks) p es)"
proof (induction es arbitrary: evs p)
  case Nil
  then show ?case by simp
next
  case (Cons i es)
  from Cons.IH[OF task_settles_ok[OF Cons.prems, of i limit]] show ?case by simp
qed

lemma initial_pool_ok:
  "pool_ok tasks [] \<lparr>results = [], running = 0, taskIndex = 0, inflight = [], settled = Pending\<rparr>"
  by (simp add: pool_ok_def started_ok_def rejected_seen_def finished_ok_def resolved_ok_def)

lemma limitConcurrency_ok: "pool_ok tasks events (limitConcurrency tasks limit events)"
  using foldl_task_settles_ok[OF runTask_ok[OF initial_pool_ok], of tasks events limit]
  by (simp add: limitConcurrency_def)

lemma limitConcurrency_resolved:
  assumes "settled (limitConcurrency tasks limit events) = Resolved rs"
  shows "length rs = length tasks \<and>
         (\<forall>i < length tasks. i \<in> set events \<and> (\<exists>r. tasks ! i = Inr r \<and> rs ! i = Some r))"
  using limitConcurrency_ok[of tasks events limit] assms
  unfolding pool_ok_def resolved_ok_def by blast

lemma length_tasks_js: "length (tasks_js e cedulas) = length cedulas"
  by (simp add: tasks_js_def)

lemma nth_tasks_js:
  "i < length cedulas \<Longrightarrow> tasks_js e cedulas ! i = processCedula_js (cedulas ! i) (visit e i)"
  by (simp add: tasks_js_def nth_enumerate_eq)

lemma cedula_processCedula_js: "processCedula_js c run = Inr r \<Longrightarrow> cedula r = c"
  by (cases run) (auto simp: ERROR_def)

lemma Returned_is_resolved:
  assumes "ended (scrapeDianCedulas_js e cedulas apiKey concurrencyLimit) = Returned resultados"
  shows "settled (limitConcurrency (tasks_js e cedulas) concurrencyLimit (before_deadline e)) =
           Resolved resultados"
proof -
  let ?s = "settled (limitConcurrency (tasks_js e cedulas) concurrencyLimit (before_deadline e))"
  show ?thesis
  proof (cases ?s)
    case Pending
    with assms show ?thesis
      by (auto simp: scrapeDianCedulas_js_def no_run_def race_def settle_def
          split: if_splits option.splits)
  next
    case (Resolved rs)
    with assms show ?thesis
      by (auto simp: scrapeDianCedulas_js_def no_run_def race_def settle_def
          split: if_splits option.splits)
  next
    case (Rejected err)
    with assms show ?thesis
      by (auto simp: scrapeDianCedulas_js_def no_run_def race_def settle_def
          split: if_splits option.splits)
  qed
qed

lemma start_tasks_fill:
  assumes "1 \<le> limit" and "i \<le> t" and "t \<le> min n (i + nat limit)"
    and "running p = t - i" and "taskIndex p = t" and "inflight p = [i..<t]"
  shows "start_tasks limit n p =
           p\<lparr>running := min n (i + nat limit) - i, inflight := [i..<min n (i + nat limit)],
             taskIndex := min n (i + nat limit)\<rparr>"
  using assms
proof (induction limit n p arbitrary: t rule: start_tasks.induct)
  case (1 limit n p)
  show ?case
  proof (cases "t < min n (i + nat limit)")
    case True
    then have cond: "int (running p) < limit \<and> taskIndex p < n"
      using "1.prems" by auto
    let ?q = "p\<lparr>running := Suc (running p), inflight := inflight p @ [taskIndex p],
                taskIndex := Suc (taskIndex p)\<rparr>"
    have "start_tasks limit n ?q =
           ?q\<lparr>running := min n (i + nat limit) - i, inflight := [i..<min n (i + nat limit)],
             taskIndex := min n (i + nat limit)\<rparr>"
    proof (rule "1.IH"[OF cond "1.prems"(1), of "Suc t"])
      show "i \<le> Suc t" using "1.prems" by simp
      show "Suc t \<le> min n (i + nat limit)" using True by simp
      show "running ?q = Suc t - i" using "1.prems" by simp
      show "taskIndex ?q = Suc t" using "1.prems" by simp
      show "inflight ?q = [i..<Suc t]" using "1.prems" by simp
    qed
    with cond show ?thesis by (subst start_tasks.simps) simp
  next
    case False
    with "1.prems"(3) have eq: "t = min n (i + nat limit)" by linarith
    have stop: "\<not> (int (running p) < limit \<and> taskIndex p < n)"
    proof
      assume c: "int (running p) < limit \<and> taskIndex p < n"
      with "1.prems"(4,5) have "int (t - i) < limit" and "t < n" by simp_all
      then have "t - i < nat limit" and "t < n" by linarith+
      with "1.prems"(2) have "t < min n (i + nat limit)" by simp
      with False show False by simp
    qed
    from stop have "start_tasks limit n p = p" by (subst start_tasks.simps) auto
    moreover have "p = p\<lparr>running := min n (i + nat limit) - i,
        inflight := [i..<min n (i + nat limit)], taskIndex := min n (i + nat limit)\<rparr>"
      using "1.prems" eq by simp
    ultimately show ?thesis by simp
  qed
qed

lemma runTask_initial:
  assumes "1 \<le> limit"
  shows "runTask limit (length tasks)
           \<lparr>results = [], running = 0, taskIndex = 0, inflight = [], settled = Pending\<rparr> =
         queue_state tasks limit 0"
proof (cases "length tasks = 0")
  case True
  then show ?thesis by (simp add: runTask_def queue_state_def settle_def)
next
  case False
  let ?p = "\<lparr>results = [], running = 0, taskIndex = 0, inflight = [], settled = Pending\<rparr>"
  have "start_tasks limit (length tasks) ?p =
      ?p\<lparr>running := min (length tasks) (0 + nat limit) - 0,
         inflight := [0..<min (length tasks) (0 + nat limit)],
         taskIndex := min (length tasks) (0 + nat limit)\<rparr>"
    by (rule start_tasks_fill[OF assms, of 0 0]) simp_all
  with False show ?thesis by (simp add: runTask_def queue_state_def)
qed

lemma removeAll_first_upt: "i < t \<Longrightarrow> removeAll i [i..<t] = [Suc i..<t]"
  by (simp add: upt_conv_Cons)

lemma task_settles_next:
  assumes limit: "1 \<le> limit" and i: "i < length tasks" and res: "tasks ! i = Inr r"
  shows "task_settles limit tasks (queue_state tasks limit i) i = queue_state tasks limit (Suc i)"
proof -
  let ?n = "length tasks"
  let ?t = "min ?n (i + nat limit)"
  let ?done = "map (\<lambda>k. Some (projr (tasks ! k))) [0..<Suc i]"
  let ?p = "queue_state tasks limit i"
  let ?q = "?p\<lparr>inflight := removeAll i (inflight ?p), results := assign (results ?p) i r,
              running := running ?p - 1\<rparr>"
  have nl: "1 \<le> nat limit" using limit by linarith
  have t: "i < ?t" using nl i by simp
  have fl: "i \<in> set (inflight ?p)" using t by (simp add: queue_state_def)
  have q: "?q = \<lparr>results = ?done, running = ?t - Suc i, taskIndex = ?t,
                  inflight = [Suc i..<?t], settled = Pending\<rparr>"
    using t i res by (simp add: queue_state_def assign_def removeAll_first_upt)
  have step: "task_settles limit tasks ?p i = runTask limit ?n ?q"
    using fl res by (simp add: task_settles_def)
  show ?thesis
  proof (cases "Suc i = ?n")
    case True
    then have "?t = ?n" using nl by simp
    with True q have "runTask limit ?n ?q = ?q\<lparr>settled := Resolved ?done\<rparr>"
      by (simp add: runTask_def settle_def)
    also have "\<dots> = queue_state tasks limit (Suc i)"
      using True \<open>?t = ?n\<close> q by (simp add: queue_state_def)
    finally show ?thesis using step by simp
  next
    case False
    with i have more: "Suc i < ?n" by simp
    have nostop: "\<not> (?n \<le> taskIndex ?q \<and> running ?q = 0)"
    proof
      assume "?n \<le> taskIndex ?q \<and> running ?q = 0"
      then have "?n \<le> taskIndex ?q" and "running ?q = 0" by simp_all
      then have "?n \<le> ?t" and "?t - Suc i = 0" unfolding q by simp_all
      with more show False by linarith
    qed
    have rt: "runTask limit ?n ?q = start_tasks limit ?n ?q"
      unfolding runTask_def using nostop by (rule if_not_P)
    have "start_tasks limit ?n ?q =
        ?q\<lparr>running := min ?n (Suc i + nat limit) - Suc i,
           inflight := [Suc i..<min ?n (Suc i + nat limit)],
           taskIndex := min ?n (Suc i + nat limit)\<rparr>"
    proof (rule start_tasks_fill[OF limit, of "Suc i" ?t])
      show "Suc i \<le> ?t" using t by linarith
      show "?t \<le> min ?n (Suc i + nat limit)" by simp
      show "running ?q = ?t - Suc i" using q by simp
      show "taskIndex ?q = ?t" using q by simp
      show "inflight ?q = [Suc i..<?t]" using q by simp
    qed
    also have "\<dots> = queue_state tasks limit (Suc i)"
      unfolding q using more by (simp add: queue_state_def)
    finally show ?thesis using step rt by simp
  qed
qed

lemma foldl_task_settles_in_order:
  assumes limit: "1 \<le> limit" and all: "\<forall>k < length tasks. \<exists>r. tasks ! k = Inr r"
  shows "length tasks - i = d \<Longrightarrow> i \<le> length tasks \<Longrightarrow>
         foldl (task_settles limit tasks) (queue_state tasks limit i) [i..<length tasks] =
           queue_state tasks limit (length tasks)"
proof (induction d arbitrary: i)
  case 0
  then have "i = length tasks" by simp
  then show ?case by simp
next
  case (Suc d)
  then have i: "i < length tasks" by simp
  with all obtain r where r: "tasks ! i = Inr r" by blast
  have "[i..<length tasks] = i # [Suc i..<length tasks]"
    using i by (simp add: upt_conv_Cons)
  moreover have "foldl (task_settles limit tasks) (queue_state tasks limit (Suc i))
      [Suc i..<length tasks] = queue_state tasks limit (length tasks)"
    by (rule Suc.IH) (use Suc.prems i in simp_all)
  ultimately show ?case
    by (simp add: task_settles_next[OF limit i r])
qed

lemma limitConcurrency_in_order:
  assumes "1 \<le> limit" and "\<forall>k < length tasks. \<exists>r. tasks ! k = Inr r"
  shows "settled (limitConcurrency tasks limit [0..<length tasks]) =
           Resolved (map (\<lambda>k. Some (projr (tasks ! k))) [0..<length tasks])"
proof -
  have "limitConcurrency tasks limit [0..<length tasks] = queue_state tasks limit (length tasks)"
    unfolding limitConcurrency_def runTask_initial[OF assms(1)]
    by (rule foldl_task_settles_in_order[OF assms refl]) simp
  then show ?thesis by (simp add: queue_state_def)
qed

lemma work_sent_at_most:
  "r \<in> set (sent (work cfg e w j cs)) \<Longrightarrow> Attempts r \<le> max 1 (MaxRetries (timeoutConfig cfg))"
proof -
  assume "r \<in> set (sent (work cfg e w j cs))"
  from work_sent_mem[OF this] obtain j' where
    r: "r = final (retry_loop (MaxRetries (timeoutConfig cfg)) (page e w (j + j'))
           (clock e w (j + j')) (cs ! j') 1 Result_zero)"
    by blast
  show ?thesis
  proof (cases "1 \<le> MaxRetries (timeoutConfig cfg)")
    case True
    from retry_loop_bounds[OF True, of "page e w (j + j')" "clock e w (j + j')" "cs ! j'" Result_zero]
    have "Attempts r \<le> MaxRetries (timeoutConfig cfg)" unfolding r by simp
    then show ?thesis by simp
  next
    case False
    then have "MaxRetries (timeoutConfig cfg) < 1" by simp
    then have "r = Result_zero" unfolding r by (simp add: retry_loop_stop)
    then show ?thesis by (simp add: Result_zero_def)
  qed
qed

lemma worker_sent_at_most:
  "r \<in> set (sent (worker cfg e cs w)) \<Longrightarrow> Attempts r \<le> max 1 (MaxRetries (timeoutConfig cfg))"
proof (cases "browser_err e w")
  case None
  assume "r \<in> set (sent (worker cfg e cs w))"
  with None have "r \<in> set (sent (work cfg e w 0 cs))" by (simp add: worker_def)
  then show ?thesis by (rule work_sent_at_most)
next
  case (Some err)
  assume "r \<in> set (sent (worker cfg e cs w))"
  with Some have "Attempts r = 1" by (auto simp: worker_def startup_failed_def)
  then show ?thesis by simp
qed

lemma spawned_sent_at_most:
  assumes "r \<in> set (delivered cfg e order cedulas)"
  shows "Attempts r \<le> max 1 (MaxRetries (timeoutConfig cfg))"
proof -
  from assms obtain i shard where "r \<in> set (sent (worker cfg e shard i))"
    by (auto simp: set_delivered spawned_def)
  then show ?thesis by (rule worker_sent_at_most)
qed

lemma retry_loop_exhausted_any:
  assumes "captcha_failed (final (retry_loop m run el c 1 Result_zero))"
  shows "Attempts (final (retry_loop m run el c 1 Result_zero)) = m \<and>
         calls (retry_loop m run el c 1 Result_zero) = [1..m]"
proof (cases "1 \<le> m")
  case True
  from retry_loop_exhausted_calls[OF True assms] show ?thesis .
next
  case False
  then have "retry_loop m run el c 1 Result_zero = \<lparr>final = Result_zero, calls = [], sleeps = 0\<rparr>"
    by (simp add: retry_loop_stop)
  with assms show ?thesis by (simp add: not_captcha_failed_zero)
qed






lemma laptop_loops:
  "final (retry_loop 3 (\<lambda>a. Extracted ''DIAZ'' ''RUIZ'' ''LUIS'' [] ''REGISTRO ACTIVO'')
            (\<lambda>a. ''12.5s'') c 1 Result_zero) =
     processCedula c (Extracted ''DIAZ'' ''RUIZ'' ''LUIS'' [] ''REGISTRO ACTIVO'') ''12.5s'' 1"
  "final (retry_loop 3 solved_second (\<lambda>a. ''12.5s'') c 1 Result_zero) =
     processCedula c (solved_second 2) ''12.5s'' 2"
  "final (retry_loop 3 never_solved (\<lambda>a. ''12.5s'') c 1 Result_zero) =
     processCedula c (never_solved 3) ''12.5s'' 3"
  by (simp_all add: result_simps retry_loop_again retry_loop_done retry_loop_stop
      solved_second_def never_solved_def after_sleep_def)

lemma shards_twice:
  "shards 2 2 0 twice = [[''7'', ''8''], [''7'']]"
  "shards 2 2 0 shared = [[''7'', ''8''], [''7'', ''9'']]"
  "shards 2 1 0 [''7'', ''7''] = [[''7''], [''7'']]"
  by (simp_all add: shards.simps slice_def twice_def shared_def)

lemma laptop_sizes:
  "optimalBrowsers (getDefaultConfig [] 2) laptop = 2"
  "cedulasPerBrowser (getDefaultConfig [] 2) laptop twice = 2"
  "cedulasPerBrowser (getDefaultConfig [] 2) laptop shared = 2"
  "optimalBrowsers (getDefaultConfig [] 2) found_all = 2"
  "cedulasPerBrowser (getDefaultConfig [] 2) found_all [''7'', ''7''] = 1"
  by (simp_all add: cedulasPerBrowser_def optimalBrowsers_def getDefaultConfig_def laptop_def
      found_all_def twice_def shared_def)

lemma delivered_twice:
  "delivered (getDefaultConfig [] 2) laptop [1, 0] twice =
     [startup_failed ''7'' ''chrome failed to start'',
      processCedula ''7'' (Extracted ''DIAZ'' ''RUIZ'' ''LUIS'' [] ''REGISTRO ACTIVO'') ''12.5s'' 1,
      processCedula ''8'' (solved_second 2) ''12.5s'' 2]"
proof -
  have w0: "sent (worker (getDefaultConfig [] 2) laptop [''7'', ''8''] 0) =
      [processCedula ''7'' (Extracted ''DIAZ'' ''RUIZ'' ''LUIS'' [] ''REGISTRO ACTIVO'') ''12.5s'' 1,
       processCedula ''8'' (solved_second 2) ''12.5s'' 2]"
    using laptop_loops(1)[of "''7''"] laptop_loops(2)[of "''8''"]
    by (simp add: worker_def laptop_def default_retries)
  have w1: "sent (worker (getDefaultConfig [] 2) laptop [''7''] (Suc 0)) =
      [startup_failed ''7'' ''chrome failed to start'']"
    by (simp add: worker_def laptop_def)
  show ?thesis
    unfolding delivered_def spawned_def laptop_sizes shards_twice
    by (simp add: w0 w1)
qed



lemma shards_five:
  "shards 2 3 0 five = [[''100'', ''200'', ''300''], [''400'', ''500'']]"
  "shards 2 1 0 [''7''] = [[''7'']]"
  by (simp_all add: shards.simps slice_def five_def)

lemma more_sizes:
  "cedulasPerBrowser (getDefaultConfig [] 2) found_all [''7''] = 1"
  by (simp_all add: cedulasPerBrowser_def optimalBrowsers_def getDefaultConfig_def found_all_def)


lemma delivered_single:
  "delivered (getDefaultConfig [] 2) found_all [] [''7''] =
     [processCedula ''7'' (Extracted ''DIAZ'' ''RUIZ'' ''LUIS'' [] ''REGISTRO ACTIVO'') ''12.5s'' 1]"
proof -
  have w: "sent (worker (getDefaultConfig [] 2) found_all [''7''] 0) =
      [processCedula ''7'' (Extracted ''DIAZ'' ''RUIZ'' ''LUIS'' [] ''REGISTRO ACTIVO'') ''12.5s'' 1]"
    using laptop_loops(1)[of "''7''"]
    by (simp add: worker_def found_all_def default_retries)
  show ?thesis
    unfolding delivered_def spawned_def laptop_sizes more_sizes shards_five
    by (simp add: w)
qed


lemma start_tasks_live:
  "pool_live tasks p \<Longrightarrow> n = length tasks \<Longrightarrow> pool_live tasks (start_tasks limit n p)"
proof (induction limit n p rule: start_tasks.induct)
  case (1 limit n p)
  show ?case
  proof (cases "int (running p) < limit \<and> taskIndex p < n")
    case True
    have "pool_live tasks
           (p\<lparr>running := Suc (running p), inflight := inflight p @ [taskIndex p],
              taskIndex := Suc (taskIndex p)\<rparr>)"
      using "1.prems"(1) by (simp add: pool_live_def)
    from "1.IH"[OF True this "1.prems"(2)] True show ?thesis
      by (subst start_tasks.simps) simp
  next
    case False
    then show ?thesis using "1.prems" by (subst start_tasks.simps) auto
  qed
qed

lemma runTask_live:
  assumes count: "running p = length (inflight p)" and norej: "\<forall>err. settled p \<noteq> Rejected err"
  shows "pool_live tasks (runTask limit (length tasks) p)"
proof (cases "length tasks \<le> taskIndex p \<and> running p = 0")
  case True
  then have q: "runTask limit (length tasks) p =
      p\<lparr>settled := settle (settled p) (Resolved (results p))\<rparr>"
    by (simp add: runTask_def)
  show ?thesis
    unfolding q using count norej
    by (cases "settled p") (simp_all add: pool_live_def settle_def)
next
  case False
  then have q: "runTask limit (length tasks) p = start_tasks limit (length tasks) p"
    by (auto simp: runTask_def)
  from False have "taskIndex p < length tasks \<or> 0 < running p" by auto
  with count norej have "pool_live tasks p" by (simp add: pool_live_def)
  then show ?thesis unfolding q by (rule start_tasks_live) simp
qed

lemma task_settles_live:
  assumes all: "\<forall>k < length tasks. \<exists>r. tasks ! k = Inr r"
    and ok: "pool_ok tasks evs p" and live: "pool_live tasks p"
  shows "pool_live tasks (task_settles limit tasks p i)"
proof (cases "i \<in> set (inflight p)")
  case False
  with live show ?thesis by (simp add: task_settles_def)
next
  case True
  from ok have s: "started_ok tasks p" by (simp add: pool_ok_def)
  with True have i: "i < length tasks" and d: "distinct (inflight p)"
    by (auto simp: started_ok_def)
  from all i obtain r where r: "tasks ! i = Inr r" by blast
  have len: "Suc (length (removeAll i (inflight p))) = length (inflight p)"
    using d True by (rule length_removeAll_distinct)
  let ?q = "p\<lparr>inflight := removeAll i (inflight p), results := assign (results p) i r,
              running := running p - 1\<rparr>"
  have "running ?q = length (inflight ?q)"
    using live len by (simp add: pool_live_def)
  moreover have "\<forall>err. settled ?q \<noteq> Rejected err"
    using live by (simp add: pool_live_def)
  ultimately have "pool_live tasks (runTask limit (length tasks) ?q)"
    by (rule runTask_live)
  with True r show ?thesis by (simp add: task_settles_def)
qed

lemma foldl_task_settles_live:
  assumes all: "\<forall>k < length tasks. \<exists>r. tasks ! k = Inr r"
  shows "pool_ok tasks evs p \<Longrightarrow> pool_live tasks p \<Longrightarrow>
         pool_live tasks (foldl (task_settles limit tasks) p es)"
proof (induction es arbitrary: evs p)
  case Nil
  then show ?case by simp
next
  case (Cons i es)
  have "pool_ok tasks (evs @ [i]) (task_settles limit tasks p i)"
    by (rule task_settles_ok[OF Cons.prems(1)])
  moreover have "pool_live tasks (task_settles limit tasks p i)"
    by (rule task_settles_live[OF all Cons.prems])
  ultimately show ?case using Cons.IH by simp
qed

lemma limitConcurrency_live:
  assumes "\<forall>k < length tasks. \<exists>r. tasks ! k = Inr r"
  shows "pool_live tasks (limitConcurrency tasks limit events)"
  unfolding limitConcurrency_def
proof (rule foldl_task_settles_live[OF assms])
  show "pool_ok tasks []
      (runTask limit (length tasks)
        \<lparr>results = [], running = 0, taskIndex = 0, inflight = [], settled = Pending\<rparr>)"
    by (rule runTask_ok[OF initial_pool_ok])
  show "pool_live tasks
      (runTask limit (length tasks)
        \<lparr>results = [], running = 0, taskIndex = 0, inflight = [], settled = Pending\<rparr>)"
    by (rule runTask_live) simp_all
qed

lemma limitConcurrency_all_settled:
  assumes all: "\<forall>k < length tasks. \<exists>r. tasks ! k = Inr r"
    and started: "taskIndex (limitConcurrency tasks limit events) = length tasks"
    and none: "inflight (limitConcurrency tasks limit events) = []"
  shows "settled (limitConcurrency tasks limit events) =
           Resolved (map (\<lambda>k. Some (projr (tasks ! k))) [0..<length tasks])"
proof -
  let ?p = "limitConcurrency tasks limit events"
  from limitConcurrency_live[OF all, of limit events] started none
  have "settled ?p \<noteq> Pending" and "\<forall>err. settled ?p \<noteq> Rejected err"
    by (auto simp: pool_live_def)
  then obtain rs where rs: "settled ?p = Resolved rs"
    by (cases "settled ?p") auto
  from limitConcurrency_resolved[OF rs]
  have len: "length rs = length tasks"
    and each: "\<forall>i < length tasks. \<exists>r. tasks ! i = Inr r \<and> rs ! i = Some r"
    by auto
  have "rs = map (\<lambda>k. Some (projr (tasks ! k))) [0..<length tasks]"
  proof (rule nth_equalityI)
    show "length rs = length (map (\<lambda>k. Some (projr (tasks ! k))) [0..<length tasks])"
      using len by simp
  next
    fix i assume "i < length rs"
    then have i: "i < length tasks" using len by simp
    with each obtain r where "tasks ! i = Inr r" "rs ! i = Some r" by blast
    with i show "rs ! i = map (\<lambda>k. Some (projr (tasks ! k))) [0..<length tasks] ! i"
      by simp
  qed
  with rs show ?thesis by simp
qed

lemma limitConcurrency_in_order_settles_all:
  assumes "1 \<le> limit" and "\<forall>k < length tasks. \<exists>r. tasks ! k = Inr r"
  shows "taskIndex (limitConcurrency tasks limit [0..<length tasks]) = length tasks \<and>
         inflight (limitConcurrency tasks limit [0..<length tasks]) = []"
proof -
  have "limitConcurrency tasks limit [0..<length tasks] = queue_state tasks limit (length tasks)"
    unfolding limitConcurrency_def runTask_initial[OF assms(1)]
    by (rule foldl_task_settles_in_order[OF assms refl]) simp
  then show ?thesis by (simp add: queue_state_def)
qed

lemma task_settles_all_started:
  assumes all: "\<forall>k < length tasks. \<exists>r. tasks ! k = Inr r"
    and started: "taskIndex p = length tasks"
    and inside: "\<forall>k \<in> set (inflight p). k < length tasks"
  shows "taskIndex (task_settles limit tasks p i) = length tasks \<and>
         inflight (task_settles limit tasks p i) = removeAll i (inflight p)"
proof (cases "i \<in> set (inflight p)")
  case False
  then show ?thesis using started by (simp add: task_settles_def)
next
  case True
  with inside all obtain r where r: "tasks ! i = Inr r" by blast
  let ?q = "p\<lparr>inflight := removeAll i (inflight p), results := assign (results p) i r,
              running := running p - 1\<rparr>"
  have "start_tasks limit (length tasks) ?q = ?q"
    using started by (subst start_tasks.simps) simp
  then have "taskIndex (runTask limit (length tasks) ?q) = length tasks \<and>
      inflight (runTask limit (length tasks) ?q) = removeAll i (inflight p)"
    using started by (simp add: runTask_def)
  with True r show ?thesis by (simp add: task_settles_def)
qed

lemma foldl_task_settles_all_started:
  assumes all: "\<forall>k < length tasks. \<exists>r. tasks ! k = Inr r"
  shows "taskIndex p = length tasks \<Longrightarrow> \<forall>k \<in> set (inflight p). k < length tasks \<Longrightarrow>
         taskIndex (foldl (task_settles limit tasks) p es) = length tasks \<and>
         set (inflight (foldl (task_settles limit tasks) p es)) = set (inflight p) - set es"
proof (induction es arbitrary: p)
  case Nil
  then show ?case by simp
next
  case (Cons i es)
  from task_settles_all_started[OF all Cons.prems, of limit i]
  have t: "taskIndex (task_settles limit tasks p i) = length tasks"
    and f: "inflight (task_settles limit tasks p i) = removeAll i (inflight p)"
    by simp_all
  have "\<forall>k \<in> set (inflight (task_settles limit tasks p i)). k < length tasks"
    using Cons.prems(2) f by simp
  from Cons.IH[OF t this] f show ?case by auto
qed

lemma limitConcurrency_any_order_settles_all:
  assumes limit: "int (length tasks) \<le> limit"
    and all: "\<forall>k < length tasks. \<exists>r. tasks ! k = Inr r"
    and every: "\<forall>k < length tasks. k \<in> set events"
  shows "taskIndex (limitConcurrency tasks limit events) = length tasks \<and>
         inflight (limitConcurrency tasks limit events) = []"
proof -
  let ?p = "runTask limit (length tasks)
      \<lparr>results = [], running = 0, taskIndex = 0, inflight = [], settled = Pending\<rparr>"
  have first: "taskIndex ?p = length tasks \<and> inflight ?p = [0..<length tasks]"
  proof (cases "length tasks = 0")
    case True
    then show ?thesis by (simp add: runTask_def)
  next
    case False
    then have "0 < length tasks" by simp
    with limit have "1 \<le> limit" by linarith
    from runTask_initial[OF this, of tasks] limit show ?thesis
      by (simp add: queue_state_def)
  qed
  then have "taskIndex ?p = length tasks" and "\<forall>k \<in> set (inflight ?p). k < length tasks"
    by simp_all
  from foldl_task_settles_all_started[OF all this, of limit events] first every
  have "taskIndex (limitConcurrency tasks limit events) = length tasks"
    and "set (inflight (limitConcurrency tasks limit events)) = {}"
    by (auto simp: limitConcurrency_def)
  then show ?thesis by simp
qed

lemma quick_site_pool:
  "taskIndex (limitConcurrency (tasks_js quick_site [''100'', ''200'']) 1 [0, 1]) = 2 \<and>
   inflight (limitConcurrency (tasks_js quick_site [''100'', ''200'']) 1 [0, 1]) = []"
  by (simp add: quick_site_def limitConcurrency_def runTask_def
      start_tasks.simps task_settles_def tasks_js_def assign_def settle_def)

section \<open>Retrying an identifier\<close>




text \<open>
  C3. \<^verbatim>\<open>getDefaultConfig\<close> sets \<^verbatim>\<open>MaxRetries\<close> to 3 and \<^verbatim>\<open>main\<close> changes only
  \<^verbatim>\<open>MaxParallelBrowsers\<close> and \<^verbatim>\<open>Concurrency\<close>, so a run is configured with at least one
  attempt. Then every Result that a worker sends, and every Result in the slice that
  \<^verbatim>\<open>ProcessCedulas\<close> returns, however many Results the collector had stored by then, has
  \<^verbatim>\<open>Attempts\<close> at most \<^verbatim>\<open>MaxRetries\<close>; and when the retry loop ends with a Result that
  still is a captcha failure, the retries were exhausted: that Result has \<^verbatim>\<open>Attempts\<close>
  equal to \<^verbatim>\<open>MaxRetries\<close>, every attempt from 1 to \<^verbatim>\<open>MaxRetries\<close> having been made.
\<close>

theorem attempts_bounded:
  "MaxRetries (timeoutConfig ((getDefaultConfig key numCPU)
      \<lparr>MaxParallelBrowsers := browsers, Concurrency := concurrency\<rparr>)) = 3 \<and>
   (1 \<le> MaxRetries (timeoutConfig cfg) \<longrightarrow>
     (\<forall>r \<in> set (delivered cfg e order cedulas). Attempts r \<le> MaxRetries (timeoutConfig cfg)) \<and>
     (\<forall>r \<in> set (ProcessCedulas cfg e order stored cedulas).
        Attempts r \<le> MaxRetries (timeoutConfig cfg)) \<and>
     (captcha_failed (final (retry_loop (MaxRetries (timeoutConfig cfg)) run el c 1 Result_zero)) \<longrightarrow>
        Attempts (final (retry_loop (MaxRetries (timeoutConfig cfg)) run el c 1 Result_zero)) =
          MaxRetries (timeoutConfig cfg) \<and>
        calls (retry_loop (MaxRetries (timeoutConfig cfg)) run el c 1 Result_zero) =
          [1..MaxRetries (timeoutConfig cfg)]))"
proof (rule conjI)
  show "MaxRetries (timeoutConfig ((getDefaultConfig key numCPU)
      \<lparr>MaxParallelBrowsers := browsers, Concurrency := concurrency\<rparr>)) = 3"
    by (simp add: getDefaultConfig_def)
next
  show "1 \<le> MaxRetries (timeoutConfig cfg) \<longrightarrow>
     (\<forall>r \<in> set (delivered cfg e order cedulas). Attempts r \<le> MaxRetries (timeoutConfig cfg)) \<and>
     (\<forall>r \<in> set (ProcessCedulas cfg e order stored cedulas).
        Attempts r \<le> MaxRetries (timeoutConfig cfg)) \<and>
     (captcha_failed (final (retry_loop (MaxRetries (timeoutConfig cfg)) run el c 1 Result_zero)) \<longrightarrow>
        Attempts (final (retry_loop (MaxRetries (timeoutConfig cfg)) run el c 1 Result_zero)) =
          MaxRetries (timeoutConfig cfg) \<and>
        calls (retry_loop (MaxRetries (timeoutConfig cfg)) run el c 1 Result_zero) =
          [1..MaxRetries (timeoutConfig cfg)])"
  proof
    assume one: "1 \<le> MaxRetries (timeoutConfig cfg)"
    have sent_ok: "Attempts r \<le> MaxRetries (timeoutConfig cfg)"
      if "r \<in> set (delivered cfg e order cedulas)" for r
      using spawned_sent_at_most[OF that] one by simp
    have slice_ok: "Attempts r \<le> MaxRetries (timeoutConfig cfg)"
      if mem: "r \<in> set (ProcessCedulas cfg e order stored cedulas)" for r
      using ProcessCedulas_members[OF mem]
    proof
      assume "r = Result_zero"
      then have "Attempts r = 0" by (simp add: Result_zero_def)
      with one show ?thesis by simp
    next
      assume "r \<in> set (delivered cfg e order cedulas)"
      then show ?thesis by (rule sent_ok)
    qed
    have exhausted: "Attempts (final (retry_loop (MaxRetries (timeoutConfig cfg)) run el c 1 Result_zero)) =
          MaxRetries (timeoutConfig cfg) \<and>
        calls (retry_loop (MaxRetries (timeoutConfig cfg)) run el c 1 Result_zero) =
          [1..MaxRetries (timeoutConfig cfg)]"
      if "captcha_failed (final (retry_loop (MaxRetries (timeoutConfig cfg)) run el c 1 Result_zero))"
      using retry_loop_exhausted_calls[OF one that] .
    from sent_ok slice_ok exhausted
    show "(\<forall>r \<in> set (delivered cfg e order cedulas). Attempts r \<le> MaxRetries (timeoutConfig cfg)) \<and>
     (\<forall>r \<in> set (ProcessCedulas cfg e order stored cedulas).
        Attempts r \<le> MaxRetries (timeoutConfig cfg)) \<and>
     (captcha_failed (final (retry_loop (MaxRetries (timeoutConfig cfg)) run el c 1 Result_zero)) \<longrightarrow>
        Attempts (final (retry_loop (MaxRetries (timeoutConfig cfg)) run el c 1 Result_zero)) =
          MaxRetries (timeoutConfig cfg) \<and>
        calls (retry_loop (MaxRetries (timeoutConfig cfg)) run el c 1 Result_zero) =
          [1..MaxRetries (timeoutConfig cfg)])"
      by blast
  qed
qed

theorem attempts_bounded_witness:
  "(1::int) \<le> MaxRetries (timeoutConfig (getDefaultConfig [] 2)) \<and>
   list_all (\<lambda>r. Attempts r \<le> 3) (delivered (getDefaultConfig [] 2) laptop [1, 0] five) \<and>
   list_all (\<lambda>r. Attempts r \<le> 3) (ProcessCedulas (getDefaultConfig [] 2) laptop [1, 0] 2 five) \<and>
   list_all (\<lambda>r. Attempts r \<le> 3) (ProcessCedulas (getDefaultConfig [] 2) laptop [1, 0] 5 five) \<and>
   captcha_failed (final (retry_loop 3 never_solved took ''300'' 1 Result_zero)) \<and>
   Attempts (final (retry_loop 3 never_solved took ''300'' 1 Result_zero)) = 3 \<and>
   calls (retry_loop 3 never_solved took ''300'' 1 Result_zero) = [1, 2, 3]"
proof -
  have three: "MaxRetries (timeoutConfig (getDefaultConfig [] 2)) = 3"
    by (rule default_retries)
  have exhausted: "captcha_failed (final (retry_loop 3 never_solved took ''300'' 1 Result_zero))"
    by (simp add: result_simps retry_loop_again retry_loop_stop never_solved_def after_sleep_def)
  have upto: "[1..3] = [1, 2, 3::int]"
    by (simp add: upto_rec1)
  note inst = attempts_bounded[where cfg = "getDefaultConfig [] 2" and e = laptop
      and order = "[1, 0]" and cedulas = five and run = never_solved and el = took
      and c = "''300''"]
  from inst[where stored = 2, THEN conjunct2] inst[where stored = 5, THEN conjunct2]
  show ?thesis
    using exhausted by (simp add: three list_all_iff upto)
qed

section \<open>The solvers\<close>

text \<open>
  C5. When the submission is accepted and no request for the result ever gets a reply other
  than not ready (or fails), each solver gives up after exactly its maximum number of
  requests: \<^verbatim>\<open>solveCaptcha\<close> returns its time-out error after 30, the solver of src/main.js
  returns \<^verbatim>\<open>null\<close> after 30, and the solver of src/js/main.js returns \<^verbatim>\<open>null\<close> after 20.
\<close>

theorem solver_times_out_after_all_polls:
  "((\<forall>i. not_ready_go (get i)) \<and> Status accepted = 1 \<longrightarrow>
      solveCaptcha (Json accepted) get = \<lparr>outcome = Inl timeout_go, polls = 30\<rparr>) \<and>
   ((\<forall>k. not_ready (ask k)) \<longrightarrow>
      solveTurnstileWith2Captcha_main (Reply 1 captchaId) ask = \<lparr>outcome = None, polls = 30\<rparr> \<and>
      solveTurnstileWith2Captcha_js (Reply 1 captchaId) ask = \<lparr>outcome = None, polls = 20\<rparr>)"
proof (rule conjI; rule impI)
  assume "(\<forall>i. not_ready_go (get i)) \<and> Status accepted = 1"
  then show "solveCaptcha (Json accepted) get = \<lparr>outcome = Inl timeout_go, polls = 30\<rparr>"
    by (simp add: solveCaptcha_def poll_go_waiting[of get 0 30])
next
  assume waiting: "\<forall>k. not_ready (ask k)"
  then have "\<forall>j. \<forall>request. ask j \<noteq> Reply 1 request"
    by (simp add: not_ready_not_solved)
  then have main: "poll_main ask 0 = \<lparr>outcome = None, polls = 30\<rparr>"
    by (rule poll_main_waiting) simp_all
  from waiting have "\<forall>j. polls_on (ask j)"
    by (simp add: not_ready_polls_on)
  then have js: "poll_js ask 0 = \<lparr>outcome = None, polls = 20\<rparr>"
    by (rule poll_js_waiting) simp_all
  from main js
  show "solveTurnstileWith2Captcha_main (Reply 1 captchaId) ask = \<lparr>outcome = None, polls = 30\<rparr> \<and>
      solveTurnstileWith2Captcha_js (Reply 1 captchaId) ask = \<lparr>outcome = None, polls = 20\<rparr>"
    by (simp add: solveTurnstileWith2Captcha_main_def solveTurnstileWith2Captcha_js_def
        token_or_null_def)
qed

theorem solver_times_out_after_all_polls_witness:
  "solveCaptcha (Json \<lparr>Status = 1, Request = ''2122988149''\<rparr>) still_working_go =
     \<lparr>outcome = Inl timeout_go, polls = 30\<rparr> \<and>
   solveTurnstileWith2Captcha_main (Reply 1 ''2122988149'') still_working =
     \<lparr>outcome = None, polls = 30\<rparr> \<and>
   solveTurnstileWith2Captcha_js (Reply 1 ''2122988149'') still_working =
     \<lparr>outcome = None, polls = 20\<rparr>"
proof -
  have go: "\<forall>i. not_ready_go (still_working_go i)"
    by (simp add: not_ready_go_def still_working_go_def)
  have js: "\<forall>k. not_ready (still_working k)"
    by (simp add: not_ready_def still_working_def)
  from solver_times_out_after_all_polls[of still_working_go
      "\<lparr>Status = 1, Request = ''2122988149''\<rparr>" still_working "''2122988149''"] go js
  show ?thesis by simp
qed

text \<open>
  C4, as the claim states it, fails in src/js/main.js: after a reply that is neither a
  success nor not ready nor unsolvable (here \<^verbatim>\<open>ERROR_WRONG_CAPTCHA_ID\<close>) the solver asks
  again, and returns the token that the second request gets.
\<close>

theorem other_error_reply_is_not_terminal:
  "solveTurnstileWith2Captcha_js (Reply 1 ''2122988149'') wrong_id_then_token =
     \<lparr>outcome = Some ''TOKEN'', polls = 2\<rparr>"
proof -
  have "poll_js wrong_id_then_token 0 = poll_js wrong_id_then_token (Suc 0)"
    by (rule poll_js_step) (simp_all add: polls_on_def wrong_id_then_token_def)
  also have "\<dots> = \<lparr>outcome = Some ''TOKEN'', polls = Suc (Suc 0)\<rparr>"
    by (rule poll_js_solved) (simp_all add: wrong_id_then_token_def)
  finally show ?thesis
    by (simp add: solveTurnstileWith2Captcha_js_def token_or_null_def numeral_2_eq_2)
qed

text \<open>
  C4, amended. In src/js/main.js a reply that is not a success and reports
  \<^verbatim>\<open>ERROR_CAPTCHA_UNSOLVABLE\<close> ends the polling at once: the solver returns \<^verbatim>\<open>null\<close> and has
  made exactly the requests up to that reply. Every other reply that is not a success,
  not ready or any other error text, is followed by the next request: a token that arrives
  after such replies, within the 20 requests, is returned.
\<close>

theorem unsolvable_stops_other_replies_poll_on:
  "(1 \<le> k \<and> k \<le> 20 \<and> (\<forall>j. 1 \<le> j \<and> j < k \<longrightarrow> polls_on (ask j)) \<and>
      ask k = Reply status request \<and> status \<noteq> 1 \<and> request \<noteq> ''CAPCHA_NOT_READY'' \<and>
      Contains request ''ERROR_CAPTCHA_UNSOLVABLE'' \<longrightarrow>
      solveTurnstileWith2Captcha_js (Reply 1 captchaId) ask = \<lparr>outcome = None, polls = k\<rparr>) \<and>
   (1 \<le> k \<and> k \<le> 20 \<and> (\<forall>j. 1 \<le> j \<and> j < k \<longrightarrow> polls_on (ask j)) \<and>
      ask k = Reply 1 token \<and> token \<noteq> [] \<longrightarrow>
      solveTurnstileWith2Captcha_js (Reply 1 captchaId) ask = \<lparr>outcome = Some token, polls = k\<rparr>)"
proof (rule conjI; rule impI)
  assume h: "1 \<le> k \<and> k \<le> 20 \<and> (\<forall>j. 1 \<le> j \<and> j < k \<longrightarrow> polls_on (ask j)) \<and>
      ask k = Reply status request \<and> status \<noteq> 1 \<and> request \<noteq> ''CAPCHA_NOT_READY'' \<and>
      Contains request ''ERROR_CAPTCHA_UNSOLVABLE''"
  then have "1 \<le> k" and "k \<le> 20" by simp_all
  then have k: "0 < k" "k \<le> 20" "k - 1 < 20" "Suc (k - 1) = k" by arith+
  from h have "\<forall>j. 0 < j \<and> j < k \<longrightarrow> polls_on (ask j)" by simp
  then have "poll_js ask 0 = poll_js ask (k - 1)"
    using k by (intro poll_js_skip) simp_all
  also have "\<dots> = \<lparr>outcome = None, polls = Suc (k - 1)\<rparr>"
    using h k by (intro poll_js_unsolvable[of _ _ status request]) simp_all
  finally show "solveTurnstileWith2Captcha_js (Reply 1 captchaId) ask = \<lparr>outcome = None, polls = k\<rparr>"
    using k by (simp add: solveTurnstileWith2Captcha_js_def token_or_null_def)
next
  assume h: "1 \<le> k \<and> k \<le> 20 \<and> (\<forall>j. 1 \<le> j \<and> j < k \<longrightarrow> polls_on (ask j)) \<and>
      ask k = Reply 1 token \<and> token \<noteq> []"
  then have "1 \<le> k" and "k \<le> 20" by simp_all
  then have k: "0 < k" "k \<le> 20" "k - 1 < 20" "Suc (k - 1) = k" by arith+
  from h have "\<forall>j. 0 < j \<and> j < k \<longrightarrow> polls_on (ask j)" by simp
  then have "poll_js ask 0 = poll_js ask (k - 1)"
    using k by (intro poll_js_skip) simp_all
  also have "\<dots> = \<lparr>outcome = Some token, polls = Suc (k - 1)\<rparr>"
    using h k by (intro poll_js_solved) simp_all
  finally show "solveTurnstileWith2Captcha_js (Reply 1 captchaId) ask = \<lparr>outcome = Some token, polls = k\<rparr>"
    using h k by (simp add: solveTurnstileWith2Captcha_js_def token_or_null_def)
qed

theorem unsolvable_stops_other_replies_poll_on_witness:
  "solveTurnstileWith2Captcha_js (Reply 1 ''2122988149'') unsolvable_second =
     \<lparr>outcome = None, polls = 2\<rparr> \<and>
   polls_on (Reply 0 ''ERROR_WRONG_CAPTCHA_ID'') \<and>
   solveTurnstileWith2Captcha_js (Reply 1 ''2122988149'') wrong_id_then_token =
     \<lparr>outcome = Some ''TOKEN'', polls = 2\<rparr>"
proof -
  have first: "\<forall>j. 1 \<le> j \<and> j < 2 \<longrightarrow> polls_on (unsolvable_second j)"
  proof (intro allI impI)
    fix j :: nat assume "1 \<le> j \<and> j < 2"
    then have "j = 1" by simp
    then show "polls_on (unsolvable_second j)"
      by (simp add: polls_on_def unsolvable_second_def)
  qed
  have wrong: "polls_on (Reply 0 ''ERROR_WRONG_CAPTCHA_ID'')"
    by (simp add: polls_on_def)
  have second: "\<forall>j. 1 \<le> j \<and> j < 2 \<longrightarrow> polls_on (wrong_id_then_token j)"
  proof (intro allI impI)
    fix j :: nat assume "1 \<le> j \<and> j < 2"
    then have "j = 1" by simp
    then show "polls_on (wrong_id_then_token j)"
      using wrong by (simp add: wrong_id_then_token_def)
  qed
  have unsolvable: "Contains ''ERROR_CAPTCHA_UNSOLVABLE'' ''ERROR_CAPTCHA_UNSOLVABLE''"
    by simp
  have "solveTurnstileWith2Captcha_js (Reply 1 ''2122988149'') unsolvable_second =
     \<lparr>outcome = None, polls = 2\<rparr>"
    using unsolvable_stops_other_replies_poll_on[of 2 unsolvable_second 0
        "''ERROR_CAPTCHA_UNSOLVABLE''" "''2122988149''" "[]", THEN conjunct1] first unsolvable
    by (simp add: unsolvable_second_def)
  moreover have "solveTurnstileWith2Captcha_js (Reply 1 ''2122988149'') wrong_id_then_token =
     \<lparr>outcome = Some ''TOKEN'', polls = 2\<rparr>"
    using unsolvable_stops_other_replies_poll_on[of 2 wrong_id_then_token 0 "[]"
        "''2122988149''" "''TOKEN''", THEN conjunct2] second
    by (simp add: wrong_id_then_token_def)
  ultimately show ?thesis using wrong by simp
qed

text \<open>
  In src/main.js the \<^verbatim>\<open>throw\<close> for an error reply is caught by the \<^verbatim>\<open>catch\<close> around the
  request, so that loop asks again even after \<^verbatim>\<open>ERROR_CAPTCHA_UNSOLVABLE\<close>; in the Go
  program every error reply but \<^verbatim>\<open>CAPCHA_NOT_READY\<close> ends \<^verbatim>\<open>solveCaptcha\<close>.
\<close>

lemma main_js_polls_on_after_unsolvable:
  "solveTurnstileWith2Captcha_main (Reply 1 ''2122988149'') unsolvable_then_token =
     \<lparr>outcome = Some ''TOKEN'', polls = 2\<rparr>"
proof -
  have "poll_main unsolvable_then_token 0 = poll_main unsolvable_then_token (Suc 0)"
    by (rule poll_main_step) (simp_all add: unsolvable_then_token_def)
  also have "\<dots> = \<lparr>outcome = Some ''TOKEN'', polls = Suc (Suc 0)\<rparr>"
    by (subst poll_main.simps) (simp add: unsolvable_then_token_def)
  finally show ?thesis
    by (simp add: solveTurnstileWith2Captcha_main_def token_or_null_def numeral_2_eq_2)
qed

lemma solveCaptcha_error_reply_is_terminal:
  "i < 30 \<Longrightarrow> get i = Json r \<Longrightarrow> Status r \<noteq> 1 \<Longrightarrow> Request r \<noteq> ''CAPCHA_NOT_READY'' \<Longrightarrow>
   poll_go get i = \<lparr>outcome = Inl (''error resolviendo captcha: '' @ Request r), polls = Suc i\<rparr>"
  by (subst poll_go.simps) simp

section \<open>Reading the identifiers\<close>

text \<open>
  C8. The reader of src/js/main.js maps over every row of the sheet: on a sheet whose first
  row is a header it returns the header's first cell as the first identifier. It does trim
  the first column and drop the blank values.
\<close>

theorem js_reader_keeps_the_header_row:
  "readCedulasFromExcel_js sheet_js = [''Cedula'', ''1047473418'', ''73089347'']"
  by (simp add: readCedulasFromExcel_js_def sheet_js_def TrimSpace_def isSpace_def
      decimal.simps digit_def)

text \<open>
  The reader of the Go program does what C8 says: the first row is skipped, the first cell
  of each later row is trimmed, and rows without cells and blank values are dropped.
\<close>

lemma go_reader_example:
  "readCedulasFromExcel (Rows sheet_go) = Inr [''1047473418'', ''73089347'']"
  by (simp add: readCedulasFromExcel_def sheet_go_def TrimSpace_def isSpace_def)

lemma scan_rows_later:
  "0 < i \<Longrightarrow> scan_rows i rows =
     filter (\<lambda>s. s \<noteq> []) (map (\<lambda>row. case row of [] \<Rightarrow> [] | first # others \<Rightarrow> TrimSpace first) rows)"
  by (induction rows arbitrary: i) (auto split: list.splits)

lemma go_reader_skips_header_trims_and_drops_blanks:
  "readCedulasFromExcel (Rows rows) =
     Inr (filter (\<lambda>s. s \<noteq> [])
            (map (\<lambda>row. case row of [] \<Rightarrow> [] | first # others \<Rightarrow> TrimSpace first) (drop 1 rows)))"
  by (cases rows) (simp_all add: readCedulasFromExcel_def scan_rows_later)

section \<open>The balance check of the JavaScript programs\<close>

text \<open>
  C10. When \<^verbatim>\<open>checkBalance\<close> reports no funds, which src/main.js tests as the string
  \<^verbatim>\<open>"0"\<close> and src/js/main.js as \<^verbatim>\<open>null\<close> or a number that is at most 0,
  \<^verbatim>\<open>scrapeDianCedulas\<close> returns \<^verbatim>\<open>undefined\<close> without having launched a browser and
  without having started the work for any identifier.
\<close>

theorem no_funds_no_run:
  "(balance_request e = Str ''0'' \<longrightarrow>
      ended (scrapeDianCedulas_main e cedulas apiKey takeScreenshots) = Returned_undefined \<and>
      \<not> launched (scrapeDianCedulas_main e cedulas apiKey takeScreenshots) \<and>
      processed (scrapeDianCedulas_main e cedulas apiKey takeScreenshots) = []) \<and>
   (balance w = None \<or> (\<exists>b. balance w = Some b \<and> le_zero b) \<longrightarrow>
      ended (scrapeDianCedulas_js w cedulas apiKey concurrencyLimit) = Returned_undefined \<and>
      \<not> launched (scrapeDianCedulas_js w cedulas apiKey concurrencyLimit) \<and>
      processed (scrapeDianCedulas_js w cedulas apiKey concurrencyLimit) = [])"
  by (auto simp: scrapeDianCedulas_main_def scrapeDianCedulas_js_def no_run_def)

theorem no_funds_no_run_witness:
  "balance_request no_funds_main = Str ''0'' \<and>
   scrapeDianCedulas_main no_funds_main [''1047473418'', ''73089347''] ''a-key'' False = no_run \<and>
   balance no_funds_js = Some (Finite 0) \<and> le_zero (Finite 0) \<and>
   scrapeDianCedulas_js no_funds_js [''1047473418'', ''73089347''] ''a-key'' 50 = no_run \<and>
   balance balance_unknown_js = None \<and>
   scrapeDianCedulas_js balance_unknown_js [''1047473418'', ''73089347''] ''a-key'' 50 = no_run"
proof -
  have m: "balance_request no_funds_main = Str ''0''"
    by (simp add: no_funds_main_def)
  have j: "balance no_funds_js = Some (Finite 0)" and z: "le_zero (Finite 0)"
    by (simp_all add: no_funds_js_def)
  have u: "balance balance_unknown_js = None"
    by (simp add: balance_unknown_js_def)
  have eq: "r = no_run" if "ended r = Returned_undefined" "\<not> launched r" "processed r = []"
    for r :: "'a scraped"
    using that by (cases r) (simp add: no_run_def)
  have "scrapeDianCedulas_main no_funds_main [''1047473418'', ''73089347''] ''a-key'' False = no_run"
    using no_funds_no_run[of no_funds_main "[''1047473418'', ''73089347'']" "''a-key''" False, THEN conjunct1] m
    by (intro eq) simp_all
  moreover have "scrapeDianCedulas_js no_funds_js [''1047473418'', ''73089347''] ''a-key'' 50 = no_run"
    using no_funds_no_run[of _ "[''1047473418'', ''73089347'']" "''a-key''" _ no_funds_js 50, THEN conjunct2] j z
    by (intro eq) simp_all
  moreover have "scrapeDianCedulas_js balance_unknown_js [''1047473418'', ''73089347''] ''a-key'' 50 = no_run"
    using no_funds_no_run[of _ "[''1047473418'', ''73089347'']" "''a-key''" _ balance_unknown_js 50, THEN conjunct2] u
    by (intro eq) simp_all
  ultimately show ?thesis using m j z u by simp
qed

section \<open>The collector of the Go program\<close>




text \<open>
  \<^verbatim>\<open>ProcessCedulas\<close> returns without waiting for the collector: a Result that is still in
  the buffer of the channel at that moment is not in the slice returned, whose slot then
  holds the zero Result.
\<close>

lemma slice_returned_before_collector_stored:
  "delivered (getDefaultConfig [] 2) found_all [] [''7''] =
     [processCedula ''7'' (Extracted ''DIAZ'' ''RUIZ'' ''LUIS'' [] ''REGISTRO ACTIVO'') ''12.5s'' 1] \<and>
   ProcessCedulas (getDefaultConfig [] 2) found_all [] 0 [''7''] = [Result_zero] \<and>
   ProcessCedulas (getDefaultConfig [] 2) found_all [] 1 [''7''] =
     [processCedula ''7'' (Extracted ''DIAZ'' ''RUIZ'' ''LUIS'' [] ''REGISTRO ACTIVO'') ''12.5s'' 1]"
  by (simp add: ProcessCedulas_def delivered_single collector_def store_def cedulaIndices_def
      Cedula_processCedula)


text \<open>
  The loop of src/main.js pushes a record on every path of an iteration but one: when the
  solver returns \<^verbatim>\<open>null\<close> it goes on to the next identifier, and the sequence it returns
  is shorter than the input.
\<close>

lemma main_js_skips_unsolved_identifier:
  "ended (scrapeDianCedulas_main unsolved_second [''100'', ''200'', ''300''] ''a-key'' False) =
     Returned [\<lparr>cedula = ''100'', primerApellido = ''PEREZ'', segundoApellido = ''GOMEZ'',
                 primerNombre = ''ANA'', segundoNombre = ''MARIA'', estado = ''REGISTRO ACTIVO''\<rparr>,
               \<lparr>cedula = ''300'', primerApellido = ''PEREZ'', segundoApellido = ''GOMEZ'',
                 primerNombre = ''ANA'', segundoNombre = ''MARIA'', estado = ''REGISTRO ACTIVO''\<rparr>]"
  by (simp add: scrapeDianCedulas_main_def unsolved_second_def)




text \<open>
  C9. The index map gives an identifier the index of its last occurrence in the input, so
  the collector stores a Result of that identifier at that index: whenever it has stored
  at least one Result of the identifier, the slot of the last occurrence holds the one it
  stored last. At the index of an earlier occurrence the slice holds the zero Result,
  however many Results have been stored.
\<close>

theorem duplicates_collapse_to_last_slot:
  "(cedulaIndices cedulas c = Some k \<longleftrightarrow>
      k < length cedulas \<and> cedulas ! k = c \<and>
      (\<forall>j. k < j \<and> j < length cedulas \<longrightarrow> cedulas ! j \<noteq> c)) \<and>
   (k < length cedulas \<and> cedulas ! k = Cedula r \<and>
    (\<forall>j. k < j \<and> j < length cedulas \<longrightarrow> cedulas ! j \<noteq> Cedula r) \<longrightarrow>
      store (cedulaIndices cedulas) slots r = slots[k := r]) \<and>
   (k < length cedulas \<and> cedulas ! k = c \<and>
    (\<forall>j. k < j \<and> j < length cedulas \<longrightarrow> cedulas ! j \<noteq> c) \<and>
    filter (\<lambda>r. Cedula r = c) (take stored (delivered cfg e order cedulas)) \<noteq> [] \<longrightarrow>
      ProcessCedulas cfg e order stored cedulas ! k =
        last (filter (\<lambda>r. Cedula r = c) (take stored (delivered cfg e order cedulas)))) \<and>
   (i < l \<and> l < length cedulas \<and> cedulas ! i = cedulas ! l \<longrightarrow>
      ProcessCedulas cfg e order stored cedulas ! i = Result_zero)"
proof (intro conjI impI)
  show "cedulaIndices cedulas c = Some k \<longleftrightarrow>
      k < length cedulas \<and> cedulas ! k = c \<and>
      (\<forall>j. k < j \<and> j < length cedulas \<longrightarrow> cedulas ! j \<noteq> c)"
    by (rule cedulaIndices_last)
next
  assume "k < length cedulas \<and> cedulas ! k = Cedula r \<and>
    (\<forall>j. k < j \<and> j < length cedulas \<longrightarrow> cedulas ! j \<noteq> Cedula r)"
  then have "cedulaIndices cedulas (Cedula r) = Some k"
    by (simp add: cedulaIndices_last)
  then show "store (cedulaIndices cedulas) slots r = slots[k := r]"
    by (rule store_last)
next
  assume "k < length cedulas \<and> cedulas ! k = c \<and>
    (\<forall>j. k < j \<and> j < length cedulas \<longrightarrow> cedulas ! j \<noteq> c) \<and>
    filter (\<lambda>r. Cedula r = c) (take stored (delivered cfg e order cedulas)) \<noteq> []"
  then show "ProcessCedulas cfg e order stored cedulas ! k =
        last (filter (\<lambda>r. Cedula r = c) (take stored (delivered cfg e order cedulas)))"
    by (intro slot_of_last_occurrence) simp_all
next
  assume "i < l \<and> l < length cedulas \<and> cedulas ! i = cedulas ! l"
  then show "ProcessCedulas cfg e order stored cedulas ! i = Result_zero"
    by (intro slot_of_earlier_occurrence[of i l]) simp_all
qed

theorem duplicates_collapse_to_last_slot_witness:
  "cedulaIndices twice ''7'' = Some 2 \<and>
   store (cedulaIndices twice) [Result_zero, Result_zero, Result_zero]
     (startup_failed ''7'' ''chrome failed to start'') =
     [Result_zero, Result_zero, startup_failed ''7'' ''chrome failed to start''] \<and>
   take 3 (delivered (getDefaultConfig [] 2) laptop [1, 0] twice) =
     [startup_failed ''7'' ''chrome failed to start'',
      processCedula ''7'' (Extracted ''DIAZ'' ''RUIZ'' ''LUIS'' [] ''REGISTRO ACTIVO'') ''12.5s'' 1,
      processCedula ''8'' (solved_second 2) ''12.5s'' 2] \<and>
   ProcessCedulas (getDefaultConfig [] 2) laptop [1, 0] 3 twice ! 2 =
     processCedula ''7'' (Extracted ''DIAZ'' ''RUIZ'' ''LUIS'' [] ''REGISTRO ACTIVO'') ''12.5s'' 1 \<and>
   ProcessCedulas (getDefaultConfig [] 2) laptop [1, 0] 1 twice ! 2 =
     startup_failed ''7'' ''chrome failed to start'' \<and>
   ProcessCedulas (getDefaultConfig [] 2) laptop [1, 0] 3 twice ! 0 = Result_zero"
proof -
  have len: "length twice = 3" and at0: "twice ! 0 = ''7''" and at2: "twice ! 2 = ''7''"
    by (simp_all add: twice_def)
  have later: "\<forall>j. 2 < j \<and> j < length twice \<longrightarrow> twice ! j \<noteq> ''7''"
    by (auto simp: len)
  have ced: "Cedula (startup_failed ''7'' ''chrome failed to start'') = ''7''"
    by (simp add: startup_failed_def)
  define found where
    "found = processCedula ''7'' (Extracted ''DIAZ'' ''RUIZ'' ''LUIS'' [] ''REGISTRO ACTIVO'') ''12.5s'' 1"
  define second where "second = processCedula ''8'' (solved_second 2) ''12.5s'' 2"
  have ceds: "Cedula found = ''7''" "Cedula second = ''8''"
    by (simp_all add: found_def second_def Cedula_processCedula)
  have three: "take 3 (delivered (getDefaultConfig [] 2) laptop [1, 0] twice) =
      [startup_failed ''7'' ''chrome failed to start'', found, second]"
    and one: "take 1 (delivered (getDefaultConfig [] 2) laptop [1, 0] twice) =
      [startup_failed ''7'' ''chrome failed to start'']"
    unfolding delivered_twice found_def second_def by simp_all
  have f3: "filter (\<lambda>r. Cedula r = ''7'')
       (take 3 (delivered (getDefaultConfig [] 2) laptop [1, 0] twice)) =
      [startup_failed ''7'' ''chrome failed to start'', found]"
    and f1: "filter (\<lambda>r. Cedula r = ''7'')
       (take 1 (delivered (getDefaultConfig [] 2) laptop [1, 0] twice)) =
      [startup_failed ''7'' ''chrome failed to start'']"
    unfolding three one by (simp_all add: ced ceds)
  note inst = duplicates_collapse_to_last_slot
  have "cedulaIndices twice ''7'' = Some 2"
    using inst[of twice "''7''" 2, THEN conjunct1] later by (simp add: len at2)
  moreover have "store (cedulaIndices twice) [Result_zero, Result_zero, Result_zero]
     (startup_failed ''7'' ''chrome failed to start'') =
     [Result_zero, Result_zero, Result_zero][2 := startup_failed ''7'' ''chrome failed to start'']"
    using inst[where cedulas = twice and k = 2 and r = "startup_failed ''7'' ''chrome failed to start''"
        and slots = "[Result_zero, Result_zero, Result_zero]", THEN conjunct2, THEN conjunct1] later
    by (simp add: len at2 ced)
  moreover have "ProcessCedulas (getDefaultConfig [] 2) laptop [1, 0] 3 twice ! 2 = found"
    using inst[where cedulas = twice and k = 2 and c = "''7''" and stored = 3
        and cfg = "getDefaultConfig [] 2" and e = laptop and order = "[1, 0]",
        THEN conjunct2, THEN conjunct2, THEN conjunct1] later
    unfolding f3 by (simp add: len at2)
  moreover have "ProcessCedulas (getDefaultConfig [] 2) laptop [1, 0] 1 twice ! 2 =
      startup_failed ''7'' ''chrome failed to start''"
    using inst[where cedulas = twice and k = 2 and c = "''7''" and stored = 1
        and cfg = "getDefaultConfig [] 2" and e = laptop and order = "[1, 0]",
        THEN conjunct2, THEN conjunct2, THEN conjunct1] later
    unfolding f1 by (simp add: len at2)
  moreover have "ProcessCedulas (getDefaultConfig [] 2) laptop [1, 0] 3 twice ! 0 = Result_zero"
    using inst[where cedulas = twice and i = 0 and l = 2 and cfg = "getDefaultConfig [] 2"
        and e = laptop and order = "[1, 0]" and stored = 3,
        THEN conjunct2, THEN conjunct2, THEN conjunct2]
    by (simp add: len at0 at2)
  ultimately show ?thesis unfolding three found_def second_def by simp
qed

section \<open>The run of src/js/main.js\<close>

text \<open>
  C6, as the claim states it, fails: when the timer of the global timeout fires while the
  task of the second identifier is still running, \<^verbatim>\<open>scrapeDianCedulas\<close> returns
  \<^verbatim>\<open>undefined\<close>; no record is returned for either identifier, finished or not.
\<close>

theorem deadline_returns_no_results:
  "ended (scrapeDianCedulas_js slow_site [''100'', ''200''] ''a-key'' 50) = Returned_undefined"
  by (simp add: scrapeDianCedulas_js_def slow_site_def limitConcurrency_def runTask_def
      start_tasks.simps task_settles_def tasks_js_def assign_def race_def settle_def)

text \<open>
  C6, amended. When the browser can be launched and closed, \<^verbatim>\<open>scrapeDianCedulas\<close> throws
  nothing to its caller. When the deadline fires before the task of some identifier has
  settled, it returns \<^verbatim>\<open>undefined\<close>: nothing is recorded for the unfinished tasks and
  the records of the finished ones are dropped. Whenever it returns a sequence, the
  sequence has one record for every identifier, in the order of the input, each the record
  \<^verbatim>\<open>processCedula\<close> returned for that identifier. And it does return that sequence when
  the key and the balance pass, the files can be written, no task rejects, and every task
  has been started and has settled when the timer fires, in whatever order the tasks
  settled; in particular when the limit admits all tasks at once and every task settles
  before the deadline, in any order.
\<close>

theorem results_all_or_nothing:
  "(launch_err e = None \<and> close_err e = None \<longrightarrow>
      (\<forall>err. ended (scrapeDianCedulas_js e cedulas apiKey concurrencyLimit) \<noteq> Thrown err)) \<and>
   (launch_err e = None \<and> close_err e = None \<and> i < length cedulas \<and>
    i \<notin> set (before_deadline e) \<longrightarrow>
      ended (scrapeDianCedulas_js e cedulas apiKey concurrencyLimit) = Returned_undefined) \<and>
   (ended (scrapeDianCedulas_js e cedulas apiKey concurrencyLimit) = Returned resultados \<longrightarrow>
      length resultados = length cedulas \<and>
      (\<forall>k < length cedulas. \<exists>r. resultados ! k = Some r \<and>
         processCedula_js (cedulas ! k) (visit e k) = Inr r \<and> cedula r = cedulas ! k)) \<and>
   (apiKey \<noteq> [] \<and> (\<exists>b. balance e = Some b \<and> \<not> le_zero b) \<and> launch_err e = None \<and>
    close_err e = None \<and> write_err e = None \<and>
    (\<forall>k err. k < length cedulas \<longrightarrow> visit e k \<noteq> Page_failed err) \<and>
    taskIndex (limitConcurrency (tasks_js e cedulas) concurrencyLimit (before_deadline e)) =
      length cedulas \<and>
    inflight (limitConcurrency (tasks_js e cedulas) concurrencyLimit (before_deadline e)) = [] \<longrightarrow>
      ended (scrapeDianCedulas_js e cedulas apiKey concurrencyLimit) =
        Returned (map (\<lambda>k. Some (projr (processCedula_js (cedulas ! k) (visit e k))))
                    [0..<length cedulas])) \<and>
   (apiKey \<noteq> [] \<and> (\<exists>b. balance e = Some b \<and> \<not> le_zero b) \<and> launch_err e = None \<and>
    close_err e = None \<and> write_err e = None \<and>
    (\<forall>k err. k < length cedulas \<longrightarrow> visit e k \<noteq> Page_failed err) \<and>
    int (length cedulas) \<le> concurrencyLimit \<and>
    (\<forall>k < length cedulas. k \<in> set (before_deadline e)) \<longrightarrow>
      ended (scrapeDianCedulas_js e cedulas apiKey concurrencyLimit) =
        Returned (map (\<lambda>k. Some (projr (processCedula_js (cedulas ! k) (visit e k))))
                    [0..<length cedulas]))"
proof (intro conjI impI)
  assume "launch_err e = None \<and> close_err e = None"
  then show "\<forall>err. ended (scrapeDianCedulas_js e cedulas apiKey concurrencyLimit) \<noteq> Thrown err"
    by (cases "race (settled (limitConcurrency (tasks_js e cedulas) concurrencyLimit
                                      (before_deadline e)))")
       (auto simp: scrapeDianCedulas_js_def no_run_def split: option.splits)
next
  assume h: "launch_err e = None \<and> close_err e = None \<and> i < length cedulas \<and>
    i \<notin> set (before_deadline e)"
  let ?s = "settled (limitConcurrency (tasks_js e cedulas) concurrencyLimit (before_deadline e))"
  have nores: "\<forall>rs. ?s \<noteq> Resolved rs"
  proof (intro allI notI)
    fix rs assume "?s = Resolved rs"
    from limitConcurrency_resolved[OF this]
    have "\<forall>k < length cedulas. k \<in> set (before_deadline e)" by (simp add: length_tasks_js)
    with h show False by blast
  qed
  have "race ?s = Pending \<or> (\<exists>err. race ?s = Rejected err)"
  proof (cases ?s)
    case Pending
    then show ?thesis by (simp add: race_def settle_def)
  next
    case (Resolved rs)
    with nores show ?thesis by simp
  next
    case (Rejected err)
    then show ?thesis by (simp add: race_def settle_def)
  qed
  with h show "ended (scrapeDianCedulas_js e cedulas apiKey concurrencyLimit) = Returned_undefined"
    by (auto simp: scrapeDianCedulas_js_def no_run_def)
next
  assume ret: "ended (scrapeDianCedulas_js e cedulas apiKey concurrencyLimit) = Returned resultados"
  from limitConcurrency_resolved[OF Returned_is_resolved[OF ret]]
  show "length resultados = length cedulas" by (simp add: length_tasks_js)
next
  assume ret: "ended (scrapeDianCedulas_js e cedulas apiKey concurrencyLimit) = Returned resultados"
  note full = limitConcurrency_resolved[OF Returned_is_resolved[OF ret]]
  show "\<forall>k < length cedulas. \<exists>r. resultados ! k = Some r \<and>
         processCedula_js (cedulas ! k) (visit e k) = Inr r \<and> cedula r = cedulas ! k"
  proof (intro allI impI)
    fix k assume k: "k < length cedulas"
    with full obtain r where "tasks_js e cedulas ! k = Inr r" "resultados ! k = Some r"
      by (auto simp: length_tasks_js)
    with k have "resultados ! k = Some r \<and>
         processCedula_js (cedulas ! k) (visit e k) = Inr r \<and> cedula r = cedulas ! k"
      by (simp add: nth_tasks_js cedula_processCedula_js)
    then show "\<exists>r. resultados ! k = Some r \<and>
         processCedula_js (cedulas ! k) (visit e k) = Inr r \<and> cedula r = cedulas ! k" ..
  qed
next
  assume h: "apiKey \<noteq> [] \<and> (\<exists>b. balance e = Some b \<and> \<not> le_zero b) \<and> launch_err e = None \<and>
    close_err e = None \<and> write_err e = None \<and>
    (\<forall>k err. k < length cedulas \<longrightarrow> visit e k \<noteq> Page_failed err) \<and>
    taskIndex (limitConcurrency (tasks_js e cedulas) concurrencyLimit (before_deadline e)) =
      length cedulas \<and>
    inflight (limitConcurrency (tasks_js e cedulas) concurrencyLimit (before_deadline e)) = []"
  have settle_all: "\<forall>k < length (tasks_js e cedulas). \<exists>r. tasks_js e cedulas ! k = Inr r"
  proof (intro allI impI)
    fix k assume "k < length (tasks_js e cedulas)"
    then have k: "k < length cedulas" by (simp add: length_tasks_js)
    with h have "\<forall>err. visit e k \<noteq> Page_failed err" by blast
    then have "\<exists>r. processCedula_js (cedulas ! k) (visit e k) = Inr r"
      by (cases "visit e k") simp_all
    with k show "\<exists>r. tasks_js e cedulas ! k = Inr r" by (simp add: nth_tasks_js)
  qed
  have same: "map (\<lambda>k. Some (projr (tasks_js e cedulas ! k))) [0..<length cedulas] =
      map (\<lambda>k. Some (projr (processCedula_js (cedulas ! k) (visit e k)))) [0..<length cedulas]"
    by (rule map_cong) (simp_all add: nth_tasks_js)
  from h have started: "taskIndex (limitConcurrency (tasks_js e cedulas) concurrencyLimit
        (before_deadline e)) = length (tasks_js e cedulas)"
    and none: "inflight (limitConcurrency (tasks_js e cedulas) concurrencyLimit
        (before_deadline e)) = []"
    by (simp_all add: length_tasks_js)
  from limitConcurrency_all_settled[OF settle_all started none] same
  have "settled (limitConcurrency (tasks_js e cedulas) concurrencyLimit (before_deadline e)) =
      Resolved (map (\<lambda>k. Some (projr (processCedula_js (cedulas ! k) (visit e k))))
                  [0..<length cedulas])"
    by (simp add: length_tasks_js)
  with h show "ended (scrapeDianCedulas_js e cedulas apiKey concurrencyLimit) =
        Returned (map (\<lambda>k. Some (projr (processCedula_js (cedulas ! k) (visit e k))))
                    [0..<length cedulas])"
    by (auto simp: scrapeDianCedulas_js_def race_def settle_def)
next
  assume h: "apiKey \<noteq> [] \<and> (\<exists>b. balance e = Some b \<and> \<not> le_zero b) \<and> launch_err e = None \<and>
    close_err e = None \<and> write_err e = None \<and>
    (\<forall>k err. k < length cedulas \<longrightarrow> visit e k \<noteq> Page_failed err) \<and>
    int (length cedulas) \<le> concurrencyLimit \<and>
    (\<forall>k < length cedulas. k \<in> set (before_deadline e))"
  have settle_all: "\<forall>k < length (tasks_js e cedulas). \<exists>r. tasks_js e cedulas ! k = Inr r"
  proof (intro allI impI)
    fix k assume "k < length (tasks_js e cedulas)"
    then have k: "k < length cedulas" by (simp add: length_tasks_js)
    with h have "\<forall>err. visit e k \<noteq> Page_failed err" by blast
    then have "\<exists>r. processCedula_js (cedulas ! k) (visit e k) = Inr r"
      by (cases "visit e k") simp_all
    with k show "\<exists>r. tasks_js e cedulas ! k = Inr r" by (simp add: nth_tasks_js)
  qed
  have same: "map (\<lambda>k. Some (projr (tasks_js e cedulas ! k))) [0..<length cedulas] =
      map (\<lambda>k. Some (projr (processCedula_js (cedulas ! k) (visit e k)))) [0..<length cedulas]"
    by (rule map_cong) (simp_all add: nth_tasks_js)
  from h have limit: "int (length (tasks_js e cedulas)) \<le> concurrencyLimit"
    and every: "\<forall>k < length (tasks_js e cedulas). k \<in> set (before_deadline e)"
    by (simp_all add: length_tasks_js)
  from limitConcurrency_any_order_settles_all[OF limit settle_all every]
  have started: "taskIndex (limitConcurrency (tasks_js e cedulas) concurrencyLimit
        (before_deadline e)) = length (tasks_js e cedulas)"
    and none: "inflight (limitConcurrency (tasks_js e cedulas) concurrencyLimit
        (before_deadline e)) = []"
    by simp_all
  from limitConcurrency_all_settled[OF settle_all started none] same
  have "settled (limitConcurrency (tasks_js e cedulas) concurrencyLimit (before_deadline e)) =
      Resolved (map (\<lambda>k. Some (projr (processCedula_js (cedulas ! k) (visit e k))))
                  [0..<length cedulas])"
    by (simp add: length_tasks_js)
  with h show "ended (scrapeDianCedulas_js e cedulas apiKey concurrencyLimit) =
        Returned (map (\<lambda>k. Some (projr (processCedula_js (cedulas ! k) (visit e k))))
                    [0..<length cedulas])"
    by (auto simp: scrapeDianCedulas_js_def race_def settle_def)
qed

theorem results_all_or_nothing_witness:
  "launch_err slow_site = None \<and> close_err slow_site = None \<and>
   (1::nat) < length [''100'', ''200''] \<and> 1 \<notin> set (before_deadline slow_site) \<and>
   ended (scrapeDianCedulas_js slow_site [''100'', ''200''] ''a-key'' 50) \<noteq> Thrown ''x'' \<and>
   ended (scrapeDianCedulas_js slow_site [''100'', ''200''] ''a-key'' 50) = Returned_undefined \<and>
   before_deadline second_first = [1, 0] \<and>
   ended (scrapeDianCedulas_js second_first [''100'', ''200''] ''a-key'' 50) =
     Returned [Some (ERROR ''100'' ''Error: Navigation timeout of 5000 ms exceeded''),
               Some \<lparr>cedula = ''200'', primerApellido = ''PEREZ'', segundoApellido = ''GOMEZ'',
                 primerNombre = ''ANA'', segundoNombre = ''MARIA'', estado = ''REGISTRO ACTIVO''\<rparr>] \<and>
   before_deadline quick_site = [0, 1] \<and>
   ended (scrapeDianCedulas_js quick_site [''100'', ''200''] ''a-key'' 1) =
     Returned [Some (ERROR ''100'' ''Error: Navigation timeout of 5000 ms exceeded''),
               Some \<lparr>cedula = ''200'', primerApellido = ''PEREZ'', segundoApellido = ''GOMEZ'',
                 primerNombre = ''ANA'', segundoNombre = ''MARIA'', estado = ''REGISTRO ACTIVO''\<rparr>] \<and>
   length [Some (ERROR ''100'' ''Error: Navigation timeout of 5000 ms exceeded''),
           Some \<lparr>cedula = ''200'', primerApellido = ''PEREZ'', segundoApellido = ''GOMEZ'',
             primerNombre = ''ANA'', segundoNombre = ''MARIA'', estado = ''REGISTRO ACTIVO''\<rparr>] =
     length [''100'', ''200'']"
proof -
  define both where
    "both = [Some (ERROR ''100'' ''Error: Navigation timeout of 5000 ms exceeded''),
             Some \<lparr>cedula = ''200'', primerApellido = ''PEREZ'', segundoApellido = ''GOMEZ'',
               primerNombre = ''ANA'', segundoNombre = ''MARIA'', estado = ''REGISTRO ACTIVO''\<rparr>]"
  have ok: "launch_err slow_site = None \<and> close_err slow_site = None"
    and late: "1 \<notin> set (before_deadline slow_site)"
    by (simp_all add: slow_site_def)
  have orders: "before_deadline second_first = [1, 0]" "before_deadline quick_site = [0, 1]"
    by (simp_all add: second_first_def quick_site_def)
  note inst = results_all_or_nothing
  have "ended (scrapeDianCedulas_js slow_site [''100'', ''200''] ''a-key'' 50) \<noteq> Thrown ''x''"
    using inst[of slow_site "[''100'', ''200'']" "''a-key''" 50, THEN conjunct1] ok by simp
  moreover have "ended (scrapeDianCedulas_js slow_site [''100'', ''200''] ''a-key'' 50) =
      Returned_undefined"
    using inst[of slow_site "[''100'', ''200'']" "''a-key''" 50 1, THEN conjunct2, THEN conjunct1]
      ok late by simp
  moreover have second: "ended (scrapeDianCedulas_js second_first [''100'', ''200''] ''a-key'' 50) =
      Returned both"
  proof -
    have pre: "''a-key'' \<noteq> [] \<and> (\<exists>b. balance second_first = Some b \<and> \<not> le_zero b) \<and>
        launch_err second_first = None \<and> close_err second_first = None \<and>
        write_err second_first = None \<and>
        (\<forall>k err. k < length [''100'', ''200''] \<longrightarrow> visit second_first k \<noteq> Page_failed err)"
      by (simp add: second_first_def)
    have pool: "int (length [''100'', ''200'']) \<le> 50 \<and>
        (\<forall>k < length [''100'', ''200'']. k \<in> set (before_deadline second_first))"
      unfolding orders by (simp add: less_Suc_eq)
    have "map (\<lambda>k. Some (projr (processCedula_js ([''100'', ''200''] ! k) (visit second_first k))))
            [0..<length [''100'', ''200'']] = both"
      by (simp add: second_first_def upt_conv_Cons both_def)
    with inst[of second_first "[''100'', ''200'']" "''a-key''" 50,
        THEN conjunct2, THEN conjunct2, THEN conjunct2, THEN conjunct2, THEN mp] pre pool
    show ?thesis by simp
  qed
  moreover have "ended (scrapeDianCedulas_js quick_site [''100'', ''200''] ''a-key'' 1) =
      Returned both"
  proof -
    have pre: "''a-key'' \<noteq> [] \<and> (\<exists>b. balance quick_site = Some b \<and> \<not> le_zero b) \<and>
        launch_err quick_site = None \<and> close_err quick_site = None \<and>
        write_err quick_site = None \<and>
        (\<forall>k err. k < length [''100'', ''200''] \<longrightarrow> visit quick_site k \<noteq> Page_failed err)"
      by (simp add: quick_site_def)
    have pool: "taskIndex (limitConcurrency (tasks_js quick_site [''100'', ''200'']) 1
          (before_deadline quick_site)) = length [''100'', ''200''] \<and>
        inflight (limitConcurrency (tasks_js quick_site [''100'', ''200'']) 1
          (before_deadline quick_site)) = []"
      unfolding orders using quick_site_pool by simp
    have "map (\<lambda>k. Some (projr (processCedula_js ([''100'', ''200''] ! k) (visit quick_site k))))
            [0..<length [''100'', ''200'']] = both"
      by (simp add: quick_site_def upt_conv_Cons both_def)
    with inst[of quick_site "[''100'', ''200'']" "''a-key''" 1,
        THEN conjunct2, THEN conjunct2, THEN conjunct2, THEN conjunct1, THEN mp] pre pool
    show ?thesis by simp
  qed
  moreover have "length both = length [''100'', ''200'']"
    using inst[of second_first "[''100'', ''200'']" "''a-key''" 50 _ both,
        THEN conjunct2, THEN conjunct2, THEN conjunct1] second
    by blast
  ultimately show ?thesis using ok late orders unfolding both_def by simp
qed

end
